theory Spec2Isabelle
  imports Main
begin

section \<open>C library functions used by HTTPClient.cpp\<close>

text \<open>
  Memory is a list of bytes and a pointer is an offset into it. A C string is the bytes
  from an offset up to (not including) the first NUL; a scan that would leave the
  allocation (undefined behaviour in C) stops at the end of the list.
\<close>

abbreviation NUL :: char where "NUL \<equiv> CHR 0x00"
abbreviation CR :: char where "CR \<equiv> CHR 0x0D"
abbreviation LF :: char where "LF \<equiv> CHR 0x0A"
abbreviation CRLF :: string where "CRLF \<equiv> [CR, LF]"

definition cstr :: "char list \<Rightarrow> nat \<Rightarrow> char list" where
  "cstr mem p = takeWhile (\<lambda>c. c \<noteq> NUL) (drop p mem)"

text \<open>\<open>*p\<close>: the byte at an offset (NUL outside the allocation).\<close>

definition peek :: "char list \<Rightarrow> nat \<Rightarrow> char" where
  "peek mem p = (case drop p mem of [] \<Rightarrow> NUL | c # _ \<Rightarrow> c)"

text \<open>\<open>std::string(first, last)\<close>: the raw bytes between two offsets, NULs included.\<close>

definition bytes :: "char list \<Rightarrow> nat \<Rightarrow> nat \<Rightarrow> char list" where
  "bytes mem p q = take (q - p) (drop p mem)"

fun find_char :: "char \<Rightarrow> char list \<Rightarrow> nat option" where
  "find_char c [] = None"
| "find_char c (x # xs) = (if x = c then Some 0 else map_option Suc (find_char c xs))"

fun find_sub :: "char list \<Rightarrow> char list \<Rightarrow> nat option" where
  "find_sub pat [] = (if pat = [] then Some 0 else None)"
| "find_sub pat (x # xs) =
     (if take (length pat) (x # xs) = pat then Some 0 else map_option Suc (find_sub pat xs))"

text \<open>\<open>strchr(p, c)\<close> and \<open>strstr(p, pat)\<close> on the C string at offset \<open>p\<close>: the offset of the
  first occurrence, \<open>None\<close> for a null result.\<close>

definition strchr :: "char list \<Rightarrow> nat \<Rightarrow> char \<Rightarrow> nat option" where
  "strchr mem p c = map_option (\<lambda>i. p + i) (find_char c (cstr mem p))"

definition strstr :: "char list \<Rightarrow> nat \<Rightarrow> char list \<Rightarrow> nat option" where
  "strstr mem p pat = map_option (\<lambda>i. p + i) (find_sub pat (cstr mem p))"

definition isspace :: "char \<Rightarrow> bool" where
  "isspace c = (c = CHR '' '' \<or> c = CHR 0x09 \<or> c = LF \<or> c = CHR 0x0B \<or> c = CHR 0x0C \<or> c = CR)"

definition digit_val :: "char \<Rightarrow> nat option" where
  "digit_val c =
     (let n = (of_char c :: nat) in
      if 48 \<le> n \<and> n \<le> 57 then Some (n - 48)
      else if 97 \<le> n \<and> n \<le> 122 then Some (n - 87)
      else if 65 \<le> n \<and> n \<le> 90 then Some (n - 55)
      else None)"

definition is_digit :: "nat \<Rightarrow> char \<Rightarrow> bool" where
  "is_digit base c = (case digit_val c of None \<Rightarrow> False | Some d \<Rightarrow> d < base)"

definition digits_val :: "nat \<Rightarrow> char list \<Rightarrow> nat" where
  "digits_val base ds =
     foldl (\<lambda>a c. a * base + (case digit_val c of None \<Rightarrow> 0 | Some d \<Rightarrow> d)) 0 ds"

text \<open>
  The subject sequence of \<open>strtol\<close>/\<open>strtoul\<close> (ISO C 7.22.1.4): leading white space,
  an optional sign, for base 16 an optional \<open>0x\<close> that a hexadecimal digit follows, then
  the longest run of digits of the base. The result is the sign, the magnitude and the
  number of characters consumed; \<open>None\<close> when there is no digit (no conversion).
\<close>

definition scan_number :: "nat \<Rightarrow> char list \<Rightarrow> (bool \<times> nat \<times> nat) option" where
  "scan_number base s =
     (let ws = length (takeWhile isspace s);
          s1 = drop ws s;
          sg = (case s1 of [] \<Rightarrow> 0 | c # _ \<Rightarrow> if c = CHR ''-'' \<or> c = CHR ''+'' then 1 else (0::nat));
          neg = (case s1 of [] \<Rightarrow> False | c # _ \<Rightarrow> c = CHR ''-'');
          s2 = drop sg s1;
          px = (if base = 16 \<and> (take 2 s2 = ''0x'' \<or> take 2 s2 = ''0X'')
                   \<and> (case drop 2 s2 of [] \<Rightarrow> False | c # _ \<Rightarrow> is_digit 16 c)
                then 2 else (0::nat));
          ds = takeWhile (is_digit base) (drop px s2)
      in if ds = [] then None else Some (neg, digits_val base ds, ws + sg + px + length ds))"

text \<open>
  \<open>strtol(s, &end, base)\<close> with a 32-bit \<open>long\<close> (the ESP32 target): the value, clamped
  to \<open>LONG_MIN .. LONG_MAX\<close>, and \<open>end - s\<close>. Without a conversion the value is 0 and
  \<open>end = s\<close>.
\<close>

definition strtol :: "nat \<Rightarrow> char list \<Rightarrow> int \<times> nat" where
  "strtol base s =
     (case scan_number base s of
        None \<Rightarrow> (0, 0)
      | Some (neg, m, used) \<Rightarrow>
          (if neg then (if m > 2 ^ 31 then - (2 ^ 31) else - int m)
           else (if m > 2 ^ 31 - 1 then 2 ^ 31 - 1 else int m), used))"

text \<open>
  \<open>std::stoul(str, nullptr, base)\<close> with a 32-bit \<open>unsigned long\<close>: \<open>None\<close> when it throws
  (\<open>std::invalid_argument\<close> without a conversion, \<open>std::out_of_range\<close> on overflow).
\<close>

definition stoul :: "nat \<Rightarrow> char list \<Rightarrow> nat option" where
  "stoul base str =
     (case scan_number base (takeWhile (\<lambda>c. c \<noteq> NUL) str) of
        None \<Rightarrow> None
      | Some (neg, m, used) \<Rightarrow>
          if m > 2 ^ 32 - 1 then None
          else Some (if neg then (2 ^ 32 - m) mod 2 ^ 32 else m))"

text \<open>\<open>tolower\<close> in the C locale.\<close>

definition tolower :: "char \<Rightarrow> char" where
  "tolower c =
     (case map_of (zip ''ABCDEFGHIJKLMNOPQRSTUVWXYZ'' ''abcdefghijklmnopqrstuvwxyz'') c of
        None \<Rightarrow> c
      | Some l \<Rightarrow> l)"

text \<open>
  \<open>strncpy(dst, src, n)\<close>: copies the characters of the C string at \<open>src\<close>, at most \<open>n\<close>,
  and fills what is left of the \<open>n\<close> bytes with NUL. A write outside the destination's
  allocation (undefined behaviour in C) is dropped.
\<close>

definition write_bytes :: "char list \<Rightarrow> nat \<Rightarrow> char list \<Rightarrow> char list" where
  "write_bytes d p bs = take p d @ take (length d - p) bs @ drop (p + length bs) d"

definition strncpy :: "char list \<Rightarrow> nat \<Rightarrow> char list \<Rightarrow> nat \<Rightarrow> nat \<Rightarrow> char list" where
  "strncpy d dp m sp n =
     (let src = takeWhile (\<lambda>c. c \<noteq> NUL) (take n (drop sp m))
      in write_bytes d dp (src @ replicate (n - length src) NUL))"

text \<open>Conversions to the 32-bit \<open>size_t\<close>/\<open>uint32_t\<close> and to \<open>uint16_t\<close>; \<open>size_sub\<close> is
  \<open>a - b\<close> on \<open>size_t\<close> operands, wrapping below zero.\<close>

definition to_size :: "int \<Rightarrow> nat" where
  "to_size v = nat (v mod 2 ^ 32)"

definition to_u16 :: "int \<Rightarrow> nat" where
  "to_u16 v = nat (v mod 2 ^ 16)"

definition size_sub :: "nat \<Rightarrow> nat \<Rightarrow> nat" where
  "size_sub a b = (if b \<le> a then a - b else a + 2 ^ 32 - b)"

definition size_add :: "nat \<Rightarrow> nat \<Rightarrow> nat" where
  "size_add a b = (a + b) mod 2 ^ 32"

text \<open>The decimal text \<open>operator<<\<close> prints for an unsigned integer.\<close>

fun dec :: "nat \<Rightarrow> string" where
  "dec n =
     (if n < 10 then [''0123456789'' ! n] else dec (n div 10) @ [''0123456789'' ! (n mod 10)])"

declare dec.simps [simp del]

section \<open>The transport\<close>

text \<open>
  Modelled from the spec: the byte-stream transport (\<open>TCPSocket\<close>, \<open>TLSSocket\<close>) is an
  external collaborator of which only the interface is given: \<open>open(host, port)\<close>,
  \<open>write(bytes) -> count\<close>, \<open>read(buffer, max) -> count\<close> (blocking fill, 0 for no more
  data), \<open>poll() -> count\<close> (bytes available without blocking), \<open>close()\<close>.

  A connection holds the bytes that have arrived and are not read yet (\<open>pending\<close>) and
  the bursts the peer will still send (\<open>future\<close>). A read takes from the pending bytes
  when there are any; otherwise it blocks until the next burst arrives, and returns 0 when
  the peer has nothing left to send. \<open>nreads\<close> counts the read calls and \<open>nblocked\<close> those
  of them that were issued with nothing pending.
\<close>

record transport =
  tls :: bool
  peer_host :: string
  peer_port :: nat
  is_open :: bool
  wcap :: nat
  sent :: "char list"
  pending :: "char list"
  future :: "char list list"
  nreads :: nat
  nblocked :: nat

record server =
  accepts :: nat
  bursts :: "char list list"

definition sock_open :: "(bool \<Rightarrow> string \<Rightarrow> nat \<Rightarrow> server) \<Rightarrow> bool \<Rightarrow> string \<Rightarrow> nat \<Rightarrow> transport" where
  "sock_open net https h p =
     \<lparr>tls = https, peer_host = h, peer_port = p, is_open = True,
      wcap = accepts (net https h p), sent = [], pending = [],
      future = bursts (net https h p), nreads = 0, nblocked = 0\<rparr>"

definition sock_write :: "char list \<Rightarrow> transport \<Rightarrow> nat \<times> transport" where
  "sock_write data t =
     (let n = min (length data) (wcap t) in (n, t\<lparr>sent := sent t @ take n data\<rparr>))"

definition sock_read :: "nat \<Rightarrow> transport \<Rightarrow> char list \<times> transport" where
  "sock_read n t =
     (if \<not> is_open t then ([], t\<lparr>nreads := nreads t + 1\<rparr>)
      else if pending t \<noteq> [] then
        (take n (pending t), t\<lparr>pending := drop n (pending t), nreads := nreads t + 1\<rparr>)
      else case future t of
        [] \<Rightarrow> ([], t\<lparr>nreads := nreads t + 1, nblocked := nblocked t + 1\<rparr>)
      | b # bs \<Rightarrow>
          (take n b, t\<lparr>pending := drop n b, future := bs,
                         nreads := nreads t + 1, nblocked := nblocked t + 1\<rparr>))"

definition sock_poll :: "transport \<Rightarrow> nat" where
  "sock_poll t = length (pending t)"

definition sock_close :: "transport \<Rightarrow> transport" where
  "sock_close t = t\<lparr>is_open := False\<rparr>"

text \<open>The null \<open>shared_ptr\<close> a new response holds: nothing can be read from it.\<close>

definition no_socket :: transport where
  "no_socket =
     \<lparr>tls = False, peer_host = [], peer_port = 0, is_open = False, wcap = 0, sent = [],
      pending = [], future = [], nreads = 0, nblocked = 0\<rparr>"

section \<open>Request and response\<close>

text \<open>
  HTTPClient.h, which declares the two structures and the constant \<open>BUF_SIZE\<close>, is not
  among the sources. The fields are the ones HTTPClient.cpp uses, with the types their use
  shows (\<open>size_t\<close> counters, a 16-bit status code), and \<open>BUF_SIZE\<close> is the parameter \<open>B\<close> of
  every function that depends on it. The request's \<open>method\<close>, \<open>headers\<close> and \<open>contentType\<close>
  are named \<open>rq_method\<close>, \<open>rq_headers\<close> and \<open>rq_contentType\<close> here; \<open>rq_headers\<close> lists the
  header map in the order in which it is iterated.
\<close>

datatype HTTPMethod = GET | POST

record HTTPRequest =
  rq_method :: HTTPMethod
  url :: string
  rq_headers :: "(string \<times> string) list"
  body :: string
  rq_contentType :: string
  maxRedirects :: int

text \<open>
  The response object. \<open>buf\<close> is the receive buffer of \<open>BUF_SIZE + 1\<close> bytes (the empty
  list stands for the null pointer) and \<open>bufPtr\<close> the offset of the read cursor into it.
  The counters are of type \<open>size_t\<close>.
\<close>

record HTTPResponse =
  socket :: transport
  headers :: "string \<Rightarrow> string option"
  statusCode :: nat
  contentLength :: nat
  contentType :: string
  location :: string
  isChunked :: bool
  isGzip :: bool
  isComplete :: bool
  isRedirect :: bool
  isStreaming :: bool
  redirectCount :: nat
  buf :: "char list"
  bufPtr :: nat
  bodyRead :: nat
  bufRemaining :: nat
  chunkRemaining :: nat

text \<open>Modelled from the spec: the member initialisers of \<open>HTTPResponse\<close> (declared in
  HTTPClient.h): status code 0, empty strings, flags false, counters 0, no buffer.\<close>

definition new_HTTPResponse :: HTTPResponse where
  "new_HTTPResponse =
     \<lparr>socket = no_socket, headers = Map.empty, statusCode = 0, contentLength = 0,
      contentType = [], location = [], isChunked = False, isGzip = False,
      isComplete = False, isRedirect = False, isStreaming = False, redirectCount = 0,
      buf = [], bufPtr = 0, bodyRead = 0, bufRemaining = 0, chunkRemaining = 0\<rparr>"

text \<open>Modelled from the spec: \<open>HTTPResponse::close\<close> (defined outside HTTPClient.cpp)
  releases the transport and the buffer.\<close>

definition close :: "HTTPResponse \<Rightarrow> HTTPResponse" where
  "close s = s\<lparr>socket := sock_close (socket s), buf := [], bufPtr := 0\<rparr>"

section \<open>Header parsing\<close>

text \<open>\<open>HTTPClient::readHeader\<close>: \<open>Some rest\<close> when the header starts with the name
  (ignoring case), \<open>rest\<close> being what follows the name and the spaces after it.\<close>

definition readHeader :: "char list \<Rightarrow> char list \<Rightarrow> char list option" where
  "readHeader header name =
     (if map tolower (take (length name) header) = map tolower name
      then Some (dropWhile (\<lambda>c. c = CHR '' '') (drop (length name) header))
      else None)"

text \<open>\<open>HTTPResponse::readRaw\<close> into the start of the receive buffer: the bytes read, the
  NUL after them, and behind that what the buffer held before.\<close>

definition readRaw :: "nat \<Rightarrow> HTTPResponse \<Rightarrow> nat \<times> HTTPResponse" where
  "readRaw B s =
     (let (data, t) = sock_read B (socket s);
          len = length data
      in (len, s\<lparr>socket := t, bodyRead := size_add (bodyRead s) len,
                  buf := data @ NUL # drop (len + 1) (buf s)\<rparr>))"

text \<open>One header line (the body of the inner loop of \<open>readHeaders\<close> after the line is
  assembled in \<open>lineBuf\<close>).\<close>

definition process_line :: "char list \<Rightarrow> HTTPResponse \<Rightarrow> HTTPResponse" where
  "process_line lineBuf s =
     (let header = takeWhile (\<lambda>c. c \<noteq> NUL) lineBuf in
      if take 5 header = ''HTTP/'' then
        s\<lparr>statusCode := to_u16 (fst (strtol 10 (drop 9 header)))\<rparr>
      else case readHeader header ''content-type:'' of
        Some v \<Rightarrow> s\<lparr>contentType := v\<rparr>
      | None \<Rightarrow>
      (case readHeader header ''content-length:'' of
        Some v \<Rightarrow>
          (let n = to_size (fst (strtol 10 v))
           in s\<lparr>contentLength := n, isComplete := (if n = 0 then True else isComplete s)\<rparr>)
      | None \<Rightarrow>
      (case readHeader header ''transfer-encoding:'' of
        Some v \<Rightarrow> s\<lparr>isChunked := (take 7 v = ''chunked'')\<rparr>
      | None \<Rightarrow>
      (case readHeader header ''location:'' of
        Some v \<Rightarrow> s\<lparr>isRedirect := True, location := v\<rparr>
      | None \<Rightarrow>
      (case find_char (CHR '':'') header of
        None \<Rightarrow> s
      | Some i \<Rightarrow>
          s\<lparr>headers := (headers s)
               (map tolower (take i header) \<mapsto>
                  dropWhile (\<lambda>c. c = CHR '' '') (drop (i + 1) header))\<rparr>)))))"

text \<open>The end of the headers (the empty line was found at \<open>lineEnd\<close>): when body bytes
  follow it in the buffer, the cursor moves to them.\<close>

definition headers_done :: "nat \<Rightarrow> nat \<Rightarrow> nat \<Rightarrow> HTTPResponse \<Rightarrow> HTTPResponse" where
  "headers_done B len lineEnd s =
     (if lineEnd + 2 < len then
        s\<lparr>bufPtr := lineEnd + 2,
          bufRemaining := len - (lineEnd + 2),
          bodyRead := len - (lineEnd + 2),
          isStreaming := (\<not> isComplete s \<and> contentLength s = 0
                          \<and> (len < B \<or> sock_poll (socket s) = 0))\<rparr>
      else s)"

text \<open>The inner loop of \<open>readHeaders\<close> over the lines of one buffer fill \<open>mem\<close> of \<open>len\<close>
  bytes, from offset \<open>line\<close>: whether the headers are complete, \<open>lineBuf\<close> and the
  response.\<close>

function hdr_lines ::
  "nat \<Rightarrow> char list \<Rightarrow> nat \<Rightarrow> nat \<Rightarrow> char list \<Rightarrow> HTTPResponse \<Rightarrow> bool \<times> char list \<times> HTTPResponse" where
  "hdr_lines B mem len line lineBuf s =
     (case strstr mem line CRLF of
        None \<Rightarrow> (False, lineBuf @ bytes mem line len, s)
      | Some lineEnd \<Rightarrow>
          if lineBuf @ bytes mem line lineEnd = [] then
            (True, [], headers_done B len lineEnd s)
          else
            hdr_lines B mem len (lineEnd + 2) []
              (process_line (lineBuf @ bytes mem line lineEnd) s))"
  by pat_completeness auto
termination
proof (relation "measure (\<lambda>(B, mem, len, line, lineBuf, s). length mem - line)")
  show "wf (measure (\<lambda>(B, mem, len, line, lineBuf, s). length mem - line))"
    by simp
next
  fix B :: nat and mem :: "char list" and len line :: nat and lineBuf :: "char list"
    and s :: HTTPResponse and lineEnd :: nat
  assume found: "strstr mem line CRLF = Some lineEnd"
  have sub: "find_sub pat xs = Some i \<Longrightarrow> i + length pat \<le> length xs"
    for pat xs :: "char list" and i
  proof (induction xs arbitrary: i)
    case Nil
    then show ?case by (simp split: if_splits)
  next
    case (Cons x xs)
    show ?case
    proof (cases "take (length pat) (x # xs) = pat")
      case True
      then have "length (take (length pat) (x # xs)) = length pat"
        by simp
      moreover have "length (take (length pat) (x # xs)) \<le> length (x # xs)"
        by (simp del: take_Suc_Cons)
      ultimately have "length pat \<le> length (x # xs)"
        by (simp only:)
      with Cons.prems True show ?thesis by simp
    next
      case False
      with Cons.prems obtain j where "find_sub pat xs = Some j" "i = Suc j"
        by auto
      with Cons.IH show ?thesis by fastforce
    qed
  qed
  from found obtain i where i: "find_sub CRLF (cstr mem line) = Some i" "lineEnd = line + i"
    by (auto simp: strstr_def)
  have "length (cstr mem line) \<le> length mem - line"
    unfolding cstr_def by (metis length_drop length_takeWhile_le)
  with sub[OF i(1)] i(2) have "lineEnd + 2 \<le> length mem"
    by simp
  then show "((B, mem, len, lineEnd + 2, [], process_line (lineBuf @ bytes mem line lineEnd) s),
              (B, mem, len, line, lineBuf, s))
             \<in> measure (\<lambda>(B, mem, len, line, lineBuf, s). length mem - line)"
    using i(2) by simp
qed

declare hdr_lines.simps [simp del]

text \<open>The outer loop of \<open>readHeaders\<close>: one buffer fill per iteration until the empty
  line. It does not return when the transport runs dry before the empty line.\<close>

partial_function (option) readHeaders_loop ::
  "nat \<Rightarrow> char list \<Rightarrow> HTTPResponse \<Rightarrow> HTTPResponse option" where
  "readHeaders_loop B lineBuf s =
     (case hdr_lines B (buf (snd (readRaw B s))) (fst (readRaw B s)) 0 lineBuf (snd (readRaw B s)) of
        (complete, lineBuf', s') \<Rightarrow>
          if complete then Some s' else readHeaders_loop B lineBuf' s')"

declare readHeaders_loop.simps [code]

text \<open>\<open>HTTPResponse::readHeaders\<close>. \<open>fresh\<close> is what \<open>malloc(BUF_SIZE + 1)\<close> returns: a
  buffer of indeterminate contents.\<close>

definition readHeaders :: "nat \<Rightarrow> char list \<Rightarrow> HTTPResponse \<Rightarrow> HTTPResponse option" where
  "readHeaders B fresh s =
     readHeaders_loop B []
       ((if buf s = [] then s\<lparr>buf := fresh, bufPtr := 0\<rparr> else s)
          \<lparr>statusCode := 0, contentLength := 0, isChunked := False, isGzip := False,
           isComplete := False, isRedirect := False, isStreaming := False\<rparr>)"

section \<open>Body decoding\<close>

text \<open>
  \<open>HTTPResponse::skip(len, dontRead)\<close>: consumes \<open>len\<close> buffered bytes; when the buffer
  is empty afterwards (and \<open>dontRead\<close> is not set) it is filled again, the cursor placed
  after the part of \<open>len\<close> that the old buffer did not cover. \<open>bufRemaining -= skip\<close> is a
  subtraction on \<open>size_t\<close>.
\<close>

definition skip :: "nat \<Rightarrow> nat \<Rightarrow> bool \<Rightarrow> HTTPResponse \<Rightarrow> bool \<times> HTTPResponse" where
  "skip B len dontRead s =
     (let carry = (if len > bufRemaining s then len - bufRemaining s else 0);
          len' = (if len > bufRemaining s then bufRemaining s else len);
          s1 = s\<lparr>bufRemaining := bufRemaining s - len', bufPtr := bufPtr s + len'\<rparr>
      in if bufRemaining s1 = 0 \<and> \<not> dontRead then
           if isComplete s1
              \<or> (contentLength s1 \<noteq> 0 \<and> bodyRead s1 \<ge> contentLength s1 \<and> chunkRemaining s1 = 0)
           then (False, s1\<lparr>isComplete := True\<rparr>)
           else
             (let n = fst (readRaw B s1);
                  s2 = (snd (readRaw B s1))\<lparr>bufRemaining := n\<rparr>
              in if n = 0 then (False, s2)
                 else
                   (let s3 = s2\<lparr>bufPtr := carry, bufRemaining := size_sub n carry\<rparr>
                    in (True, if contentLength s3 = 0 \<and> bufRemaining s3 < B
                              then s3\<lparr>isStreaming := True\<rparr> else s3)))
         else (True, s1))"

text \<open>The local variables of \<open>read\<close>: the destination memory, the offset of the cursor
  \<open>dst\<close> in it, the counter \<open>read\<close> and \<open>toRead\<close>.\<close>

record locals =
  dst :: "char list"
  dstp :: nat
  nread :: nat
  toRead :: nat

datatype ctl = Next | Break | Throw

datatype 'a outcome = Returns 'a | Throws

text \<open>The chunk-size line (\<open>isChunked && !chunkRemaining\<close>): \<open>Break\<close> leaves the main loop
  of \<open>read\<close>, \<open>Throw\<close> is an exception of \<open>std::stoul\<close>.\<close>

definition chunk_header :: "nat \<Rightarrow> HTTPResponse \<Rightarrow> ctl \<times> HTTPResponse" where
  "chunk_header B s =
     (if peek (buf s) (bufPtr s) = CHR ''0'' then (Break, s\<lparr>isComplete := True\<rparr>)
      else case strchr (buf s) (bufPtr s) CR of
        None \<Rightarrow>
          (let size = bytes (buf s) (bufPtr s) (bufPtr s + bufRemaining s);
               r = skip B (bufRemaining s) False s;
               s1 = snd r
           in if \<not> fst r then (Break, s1)
              else case strchr (buf s1) (bufPtr s1) CR of
                None \<Rightarrow> (Break, s1)
              | Some endPtr \<Rightarrow>
                  (case stoul 16 (size @ bytes (buf s1) (bufPtr s1) endPtr) of
                     None \<Rightarrow> (Throw, s1)
                   | Some v \<Rightarrow>
                       (let r2 = skip B (endPtr - bufPtr s1 + 2) False (s1\<lparr>chunkRemaining := v\<rparr>)
                        in (if fst r2 then Next else Break, snd r2))))
      | Some _ \<Rightarrow>
          (let c = strtol 16 (cstr (buf s) (bufPtr s));
               r = skip B (snd c + 2) False (s\<lparr>chunkRemaining := to_size (fst c)\<rparr>)
           in (if fst r then Next else Break, snd r)))"

text \<open>One iteration of the copy loop \<open>while (chunkRemaining && toRead)\<close>; its \<open>break\<close>
  follows \<open>toRead = 0\<close>, so it is the loop condition that ends the loop.\<close>

definition copy_step :: "nat \<Rightarrow> HTTPResponse \<Rightarrow> locals \<Rightarrow> HTTPResponse \<times> locals" where
  "copy_step B s d =
     (let count = min (toRead d) (min (bufRemaining s) (chunkRemaining s));
          d1 = d\<lparr>dst := strncpy (dst d) (dstp d) (buf s) (bufPtr s) count,
                 dstp := dstp d + count,
                 nread := nread d + count,
                 toRead := toRead d - count\<rparr>;
          r = skip B count False (s\<lparr>chunkRemaining := chunkRemaining s - count\<rparr>)
      in if \<not> fst r then (snd r, d1\<lparr>toRead := 0\<rparr>)
         else if isChunked (snd r) \<and> chunkRemaining (snd r) = 0 then
           (let r2 = skip B 2 (isStreaming (snd r)) (snd r)
            in (snd r2, if fst r2 then d1 else d1\<lparr>toRead := 0\<rparr>))
         else (snd r, d1))"

function copy_loop :: "nat \<Rightarrow> HTTPResponse \<Rightarrow> locals \<Rightarrow> HTTPResponse \<times> locals" where
  "copy_loop B s d =
     (if chunkRemaining s = 0 \<or> toRead d = 0 then (s, d)
      else copy_loop B (fst (copy_step B s d)) (snd (copy_step B s d)))"
  by pat_completeness auto
termination
proof (relation "measure (\<lambda>(B, s, d).
          if chunkRemaining s = 0 then 0
          else 1 + 2 * toRead d + (if bufRemaining s = 0 then 1 else 0))")
  show "wf (measure (\<lambda>(B, s, d).
          if chunkRemaining s = 0 then 0
          else 1 + 2 * toRead d + (if bufRemaining s = 0 then 1 else 0)))"
    by simp
next
  fix B :: nat and s :: HTTPResponse and d :: locals
  assume "\<not> (chunkRemaining s = 0 \<or> toRead d = 0)"
  then have pos: "chunkRemaining s \<noteq> 0" "toRead d \<noteq> 0"
    by simp_all
  define count where "count = min (toRead d) (min (bufRemaining s) (chunkRemaining s))"
  define r where "r = skip B count False (s\<lparr>chunkRemaining := chunkRemaining s - count\<rparr>)"
  define d1 where "d1 = d\<lparr>dst := strncpy (dst d) (dstp d) (buf s) (bufPtr s) count,
                 dstp := dstp d + count,
                 nread := nread d + count,
                 toRead := toRead d - count\<rparr>"
  define s' where "s' = fst (copy_step B s d)"
  define d' where "d' = snd (copy_step B s d)"
  have step: "copy_step B s d =
     (if \<not> fst r then (snd r, d1\<lparr>toRead := 0\<rparr>)
      else if isChunked (snd r) \<and> chunkRemaining (snd r) = 0 then
        (snd (skip B 2 (isStreaming (snd r)) (snd r)),
         if fst (skip B 2 (isStreaming (snd r)) (snd r)) then d1 else d1\<lparr>toRead := 0\<rparr>)
      else (snd r, d1))"
    by (simp add: copy_step_def Let_def r_def d1_def count_def)
  have cr: "chunkRemaining (snd (skip B n f t)) = chunkRemaining t" for n f t
    by (simp add: skip_def readRaw_def Let_def split: prod.splits)
  have crr: "chunkRemaining (snd r) = chunkRemaining s - count"
    by (simp add: r_def cr)
  have cr': "chunkRemaining s' = chunkRemaining s - count"
    by (simp add: s'_def step cr crr)
  have tr: "toRead d' \<le> toRead d - count"
    by (simp add: d'_def step d1_def)
  have fill: "toRead d' = 0 \<or> bufRemaining s' \<noteq> 0 \<or> chunkRemaining s' = 0" if "count = 0"
  proof -
    from that pos have empty: "bufRemaining s = 0"
      by (simp add: count_def min_def split: if_splits)
    show ?thesis
    proof (cases "fst r")
      case False
      then show ?thesis
        by (simp add: d'_def step)
    next
      case True
      have "r = skip B 0 False s"
        by (simp add: r_def that)
      with True empty have "bufRemaining (snd r) \<noteq> 0"
        by (auto simp: skip_def Let_def size_sub_def split: if_splits)
      moreover from True pos that have "s' = snd r"
        by (simp add: s'_def step crr)
      ultimately show ?thesis by simp
    qed
  qed
  have "(if chunkRemaining s' = 0 then 0
         else 1 + 2 * toRead d' + (if bufRemaining s' = 0 then 1 else 0))
        < 1 + 2 * toRead d + (if bufRemaining s = 0 then 1 else 0)"
  proof (cases "count = 0")
    case True
    with pos have "bufRemaining s = 0"
      by (simp add: count_def min_def split: if_splits)
    with fill[OF True] tr pos show ?thesis by auto
  next
    case False
    with tr pos show ?thesis by auto
  qed
  then have "(if chunkRemaining (fst (copy_step B s d)) = 0 then 0
         else 1 + 2 * toRead (snd (copy_step B s d))
              + (if bufRemaining (fst (copy_step B s d)) = 0 then 1 else 0))
        < (if chunkRemaining s = 0 then 0
           else 1 + 2 * toRead d + (if bufRemaining s = 0 then 1 else 0))"
    using pos unfolding s'_def d'_def by (simp only: if_False)
  then show "((B, fst (copy_step B s d), snd (copy_step B s d)), (B, s, d))
        \<in> measure (\<lambda>(B, s, d).
             if chunkRemaining s = 0 then 0
             else 1 + 2 * toRead d + (if bufRemaining s = 0 then 1 else 0))"
    by (simp only: in_measure prod.case)
qed

declare copy_loop.simps [simp del]

text \<open>One iteration of the main loop \<open>while (toRead)\<close> of \<open>read\<close>.\<close>

definition read_iter :: "nat \<Rightarrow> HTTPResponse \<Rightarrow> locals \<Rightarrow> ctl \<times> HTTPResponse \<times> locals" where
  "read_iter B s d =
     (let s1 = snd (skip B 0 False s);
          h = (if isChunked s1 \<and> chunkRemaining s1 = 0 then chunk_header B s1
               else if contentLength s1 \<noteq> 0 \<and> chunkRemaining s1 = 0
                 then (Next, s1\<lparr>chunkRemaining := contentLength s1\<rparr>)
               else (Next, s1))
      in case fst h of
           Break \<Rightarrow> (Break, snd h, d)
         | Throw \<Rightarrow> (Throw, snd h, d)
         | Next \<Rightarrow>
             (let c = copy_loop B (snd h) d
              in (if isStreaming (fst c) \<and> bufRemaining (fst c) = 0 then Break else Next,
                  fst c, snd c)))"

text \<open>The main loop. It does not return when an iteration neither consumes anything nor
  breaks (a body with neither length nor chunk framing while bytes are buffered).\<close>

partial_function (option) read_loop ::
  "nat \<Rightarrow> HTTPResponse \<Rightarrow> locals \<Rightarrow> (HTTPResponse \<times> locals) outcome option" where
  "read_loop B s d =
     (if toRead d = 0 then Some (Returns (s, d))
      else case read_iter B s d of
        (Next, s', d') \<Rightarrow> read_loop B s' d'
      | (Break, s', d') \<Rightarrow> Some (Returns (s', d'))
      | (Throw, s', d') \<Rightarrow> Some Throws)"

declare read_loop.simps [code]

text \<open>\<open>HTTPResponse::read(dst, toRead)\<close>: the response, the destination memory and the
  number of bytes read.\<close>

definition read ::
  "nat \<Rightarrow> HTTPResponse \<Rightarrow> char list \<Rightarrow> nat \<Rightarrow> (HTTPResponse \<times> char list \<times> nat) outcome option" where
  "read B s dst0 n =
     (if isComplete s then Some (Returns (s, dst0[0 := NUL], 0))
      else case read_loop B s \<lparr>dst = dst0, dstp = 0, nread = 0, toRead = n\<rparr> of
        None \<Rightarrow> None
      | Some Throws \<Rightarrow> Some Throws
      | Some (Returns (s1, d)) \<Rightarrow>
          Some (Returns
            (if \<not> isChunked s1 \<and> contentLength s1 \<noteq> 0 \<and> chunkRemaining s1 = 0
             then s1\<lparr>isComplete := True\<rparr> else s1,
             (dst d)[nread d := NUL], nread d)))"

text \<open>The loop of \<open>readToString\<close> for a body of unknown length; \<open>buffer\<close> is the local
  array of \<open>BUF_SIZE\<close> bytes.\<close>

partial_function (option) readToString_loop ::
  "nat \<Rightarrow> char list \<Rightarrow> HTTPResponse \<Rightarrow> string \<Rightarrow> (HTTPResponse \<times> string) outcome option" where
  "readToString_loop B buffer s result =
     (case read B s buffer B of
        None \<Rightarrow> None
      | Some Throws \<Rightarrow> Some Throws
      | Some (Returns (s1, buffer1, len)) \<Rightarrow>
          if len \<noteq> 0 then readToString_loop B buffer1 s1 (result @ cstr buffer1 0)
          else Some (Returns (close s1, result @ cstr buffer1 0)))"

declare readToString_loop.simps [code]

text \<open>\<open>HTTPResponse::readToString\<close>; \<open>scratch\<close> is the indeterminate initial content of the
  local array.\<close>

definition readToString ::
  "nat \<Rightarrow> char list \<Rightarrow> HTTPResponse \<Rightarrow> (HTTPResponse \<times> string) outcome option" where
  "readToString B scratch s =
     (if contentLength s \<noteq> 0 then
        case read B s (replicate (contentLength s + 1) NUL) (contentLength s) of
          None \<Rightarrow> None
        | Some Throws \<Rightarrow> Some Throws
        | Some (Returns (s1, m, len)) \<Rightarrow> Some (Returns (close s1, take (contentLength s) m))
      else readToString_loop B scratch s [])"

section \<open>Executing a request\<close>

text \<open>The decomposition of the URL at the head of \<open>executeImpl\<close>. \<open>None\<close>: the URL has no
  \<open>/\<close> after the scheme, and the code goes on with a null pointer.\<close>

record url_parts =
  https :: bool
  port :: nat
  hostnameStr :: string
  path :: string

definition url_split :: "string \<Rightarrow> url_parts option" where
  "url_split u =
     (let mem = u @ [NUL];
          is_https = (peek mem 4 = CHR ''s'');
          hostname = (if is_https then 8 else 7);
          colon = strchr mem hostname (CHR '':'');
          slash = strchr mem hostname (CHR ''/'');
          hostnameEnd = (case colon of None \<Rightarrow> slash | Some e \<Rightarrow> Some e);
          prt = (case colon of
                   None \<Rightarrow> (if is_https then 443 else 80)
                 | Some e \<Rightarrow> to_u16 (fst (strtol 10 (cstr mem (e + 1)))))
      in case (hostnameEnd, slash) of
           (Some e, Some p) \<Rightarrow>
             Some \<lparr>https = is_https, port = prt, hostnameStr = bytes mem hostname e,
                   path = cstr mem p\<rparr>
         | _ \<Rightarrow> None)"

text \<open>The request as it is written to the transport.\<close>

definition request_text :: "HTTPRequest \<Rightarrow> url_parts \<Rightarrow> string" where
  "request_text req u =
     (case rq_method req of GET \<Rightarrow> ''GET '' | POST \<Rightarrow> ''POST '')
     @ path u @ '' HTTP/1.1'' @ CRLF
     @ ''Host: '' @ hostnameStr u @ '':'' @ dec (port u) @ CRLF
     @ ''Accept: */*'' @ CRLF
     @ (if body req \<noteq> [] then
          ''Content-Type: '' @ rq_contentType req @ CRLF
          @ ''Content-Length: '' @ dec (length (body req)) @ CRLF
        else [])
     @ concat (map (\<lambda>h. fst h @ '': '' @ snd h @ CRLF) (rq_headers req))
     @ CRLF @ body req"

text \<open>
  The result of \<open>executeImpl\<close> in \<open>response\<close>: a live response, or the null pointer after
  a failed write (with the state in which the object was freed), or a URL outside the
  precondition.
\<close>

datatype exec_result = Live HTTPResponse | Freed HTTPResponse | BadUrl

text \<open>One leg: \<open>executeImpl\<close> up to and including \<open>readHeaders\<close>. \<open>net\<close> tells what
  server a connection reaches.\<close>

definition leg ::
  "(bool \<Rightarrow> string \<Rightarrow> nat \<Rightarrow> server) \<Rightarrow> nat \<Rightarrow> char list \<Rightarrow> HTTPRequest \<Rightarrow> string \<Rightarrow> HTTPResponse
     \<Rightarrow> exec_result option" where
  "leg net B fresh req u response =
     (case url_split u of
        None \<Rightarrow> Some BadUrl
      | Some parts \<Rightarrow>
          (let s0 = response\<lparr>socket := sock_open net (https parts) (hostnameStr parts) (port parts)\<rparr>;
               data = request_text req parts;
               w = sock_write data (socket s0);
               s1 = s0\<lparr>socket := snd w\<rparr>
           in if fst w \<noteq> length data then Some (Freed (close s1))
              else map_option Live (readHeaders B fresh s1)))"

partial_function (option) executeImpl ::
  "(bool \<Rightarrow> string \<Rightarrow> nat \<Rightarrow> server) \<Rightarrow> nat \<Rightarrow> char list \<Rightarrow> HTTPRequest \<Rightarrow> string \<Rightarrow> HTTPResponse
     \<Rightarrow> exec_result option" where
  "executeImpl net B fresh req u response =
     (case leg net B fresh req u response of
        None \<Rightarrow> None
      | Some BadUrl \<Rightarrow> Some BadUrl
      | Some (Freed r) \<Rightarrow> Some (Freed r)
      | Some (Live r) \<Rightarrow>
          if isRedirect r \<and> (maxRedirects req < 0 \<or> int (redirectCount r) < maxRedirects req)
          then executeImpl net B fresh req (location r)
                 (close (r\<lparr>redirectCount := size_add (redirectCount r) 1\<rparr>))
          else Some (Live r))"

declare executeImpl.simps [code]

text \<open>\<open>HTTPClient::execute\<close>: the pointer it returns (\<open>None\<close> is the null pointer);
  \<open>Throws\<close> stands for the undefined behaviour on a URL outside the precondition.\<close>

definition execute ::
  "(bool \<Rightarrow> string \<Rightarrow> nat \<Rightarrow> server) \<Rightarrow> nat \<Rightarrow> char list \<Rightarrow> HTTPRequest \<Rightarrow> HTTPResponse option outcome option" where
  "execute net B fresh req =
     (case executeImpl net B fresh req (url req) new_HTTPResponse of
        None \<Rightarrow> None
      | Some (Live r) \<Rightarrow> Some (Returns (Some r))
      | Some (Freed r) \<Rightarrow> Some (Returns None)
      | Some BadUrl \<Rightarrow> Some Throws)"

section \<open>The destination of a read\<close>

text \<open>What the loops of \<open>read\<close> keep true of the destination: \<open>dst0\<close> is the memory and
  \<open>n\<close> the byte count that \<open>read\<close> was called with.\<close>

definition dst_inv :: "char list \<Rightarrow> nat \<Rightarrow> locals \<Rightarrow> bool" where
  "dst_inv dst0 n d =
     (length (dst d) = length dst0 \<and> dstp d = nread d \<and> nread d + toRead d \<le> n
      \<and> (\<forall>i. nread d \<le> i \<and> i < length dst0 \<longrightarrow> dst d ! i = dst0 ! i))"

section \<open>Example inputs\<close>

text \<open>A server that accepts only the first 10 bytes of a write and sends nothing.\<close>

definition deaf_net :: "bool \<Rightarrow> string \<Rightarrow> nat \<Rightarrow> server" where
  "deaf_net secure h p = \<lparr>accepts = 10, bursts = []\<rparr>"

definition get_request :: "string \<Rightarrow> int \<Rightarrow> HTTPRequest" where
  "get_request u n =
     \<lparr>rq_method = GET, url = u, rq_headers = [], body = [], rq_contentType = [],
      maxRedirects = n\<rparr>"

text \<open>A server \<open>a\<close> that redirects to \<open>http://b/x\<close>; every other server answers 200 with an
  empty body.\<close>

definition redirect_net :: "bool \<Rightarrow> string \<Rightarrow> nat \<Rightarrow> server" where
  "redirect_net secure h p =
     (if h = ''a'' then
        \<lparr>accepts = 1000,
         bursts = [''HTTP/1.1 302 Found'' @ CRLF @ ''Location: http://b/x'' @ CRLF @ CRLF]\<rparr>
      else
        \<lparr>accepts = 1000,
         bursts = [''HTTP/1.1 200 OK'' @ CRLF @ ''Content-Length: 0'' @ CRLF @ CRLF]\<rparr>)"

text \<open>A new response whose transport is connected and will receive the given bursts.\<close>

definition response_on :: "char list list \<Rightarrow> HTTPResponse" where
  "response_on bs =
     new_HTTPResponse
       \<lparr>socket := \<lparr>tls = False, peer_host = ''h'', peer_port = 80, is_open = True, wcap = 0,
                   sent = [], pending = [], future = bs, nreads = 0, nblocked = 0\<rparr>\<rparr>"

definition chunked_head :: "char list" where
  "chunked_head = ''HTTP/1.1 200 OK'' @ CRLF @ ''Transfer-Encoding: chunked'' @ CRLF @ CRLF"

definition foo_head :: "char list" where
  "foo_head = ''HTTP/1.1 200 OK'' @ CRLF @ ''Content-Length: 42'' @ CRLF @ ''X-Foo: bar'' @ CRLF @ CRLF"

definition wikipedia_chunks :: "char list" where
  "wikipedia_chunks =
     ''4'' @ CRLF @ ''Wiki'' @ CRLF @ ''5'' @ CRLF @ ''pedia'' @ CRLF @ ''0'' @ CRLF @ CRLF"

definition nul_body :: "char list" where
  "nul_body =
     ''HTTP/1.1 200 OK'' @ CRLF @ ''Content-Length: 3'' @ CRLF @ CRLF @ [CHR ''a'', NUL, CHR ''b'']"

section \<open>Evaluation\<close>

lemmas c_eval =
  cstr_def peek_def bytes_def strchr_def strstr_def strtol_def stoul_def scan_number_def
  isspace_def is_digit_def digit_val_def digits_val_def to_u16_def to_size_def tolower_def

lemmas hdr_eval =
  readRaw_def sock_read_def size_add_def hdr_lines.simps process_line_def
  readHeader_def headers_done_def sock_poll_def

lemmas read_eval =
  read_iter_def skip_def chunk_header_def copy_loop.simps copy_step_def strncpy_def
  write_bytes_def size_sub_def readRaw_def sock_read_def size_add_def

section \<open>The URL decomposition\<close>

text \<open>
  C6. The claim: for an absolute URL without an explicit \<open>:port\<close> between host and path
  (for example one whose first colon after the scheme is inside the path) the default
  port of the scheme is used and the host name ends at the first \<open>/\<close>. The code searches
  the colon in the whole rest of the URL: for \<open>http://example.com/a:b\<close> it takes
  \<open>example.com/a\<close> as the host name and reads the port from \<open>b\<close>, which gives 0, not 80.
\<close>

theorem url_split_colon_in_path:
  "url_split ''http://example.com/a:b''
     = Some \<lparr>https = False, port = 0, hostnameStr = ''example.com/a'', path = ''/a:b''\<rparr>"
  by (simp add: url_split_def c_eval)

section \<open>Write failure\<close>

text \<open>
  C9. When the transport's write accepts fewer bytes than the serialized request has,
  the leg fails: \<open>executeImpl\<close> leaves the null pointer in \<open>response\<close>, the object was freed
  with its transport closed and its buffer released, no read was issued on that
  transport (neither header parsing nor a body read took place), and \<open>execute\<close> returns the
  null pointer.
\<close>

theorem write_failure_is_fatal:
  assumes split: "url_split u = Some parts"
    and short: "fst (sock_write (request_text req parts)
                      (sock_open net (https parts) (hostnameStr parts) (port parts)))
                < length (request_text req parts)"
  shows "(\<exists>r. executeImpl net B fresh req u response = Some (Freed r)
            \<and> \<not> is_open (socket r) \<and> nreads (socket r) = 0 \<and> buf r = [])
         \<and> execute net B fresh (req\<lparr>url := u\<rparr>) = Some (Returns None)"
proof -
  have rt: "request_text (req\<lparr>url := u\<rparr>) parts = request_text req parts"
    by (simp add: request_text_def)
  have l: "\<exists>r. leg net B fresh rq u resp = Some (Freed r)
            \<and> \<not> is_open (socket r) \<and> nreads (socket r) = 0 \<and> buf r = []"
    if "request_text rq parts = request_text req parts" for rq resp
    using split short that
    by (simp add: leg_def Let_def sock_write_def sock_open_def close_def sock_close_def)
  have e: "\<exists>r. executeImpl net B fresh rq u resp = Some (Freed r)
            \<and> \<not> is_open (socket r) \<and> nreads (socket r) = 0 \<and> buf r = []"
    if "request_text rq parts = request_text req parts" for rq resp
    using l[OF that, of resp] by (subst executeImpl.simps) auto
  from e[of req response] e[OF rt, of new_HTTPResponse] show ?thesis
    by (auto simp: execute_def)
qed

theorem write_failure_is_fatal_witness:
  "url_split ''http://h/'' = Some \<lparr>https = False, port = 80, hostnameStr = ''h'', path = ''/''\<rparr>
   \<and> fst (sock_write
            (request_text (get_request ''http://h/'' 0)
               \<lparr>https = False, port = 80, hostnameStr = ''h'', path = ''/''\<rparr>)
            (sock_open deaf_net False ''h'' 80))
       < length (request_text (get_request ''http://h/'' 0)
                   \<lparr>https = False, port = 80, hostnameStr = ''h'', path = ''/''\<rparr>)
   \<and> execute deaf_net 1024 [] (get_request ''http://h/'' 0) = Some (Returns None)"
proof -
  have split: "url_split ''http://h/''
                 = Some \<lparr>https = False, port = 80, hostnameStr = ''h'', path = ''/''\<rparr>"
    by (simp add: url_split_def c_eval)
  have short: "fst (sock_write
            (request_text (get_request ''http://h/'' 0)
               \<lparr>https = False, port = 80, hostnameStr = ''h'', path = ''/''\<rparr>)
            (sock_open deaf_net
               (https \<lparr>https = False, port = 80, hostnameStr = ''h'', path = ''/''\<rparr>)
               (hostnameStr \<lparr>https = False, port = 80, hostnameStr = ''h'', path = ''/''\<rparr>)
               (port \<lparr>https = False, port = 80, hostnameStr = ''h'', path = ''/''\<rparr>)))
       < length (request_text (get_request ''http://h/'' 0)
                   \<lparr>https = False, port = 80, hostnameStr = ''h'', path = ''/''\<rparr>)"
    by (simp add: sock_write_def sock_open_def deaf_net_def request_text_def get_request_def)
  have "get_request ''http://h/'' 0 \<lparr>url := ''http://h/''\<rparr> = get_request ''http://h/'' 0"
    by (simp add: get_request_def)
  with write_failure_is_fatal[OF split short, of 1024 "[]" new_HTTPResponse] split short
  show ?thesis by simp
qed

section \<open>Redirects\<close>

text \<open>Header parsing leaves \<open>redirectCount\<close> alone.\<close>

lemma redirectCount_process_line: "redirectCount (process_line l s) = redirectCount s"
  by (simp add: process_line_def Let_def split: option.splits)

lemma redirectCount_hdr_lines:
  "redirectCount (snd (snd (hdr_lines B mem len line lineBuf s))) = redirectCount s"
proof (induction B mem len line lineBuf s rule: hdr_lines.induct)
  case (1 B mem len line lineBuf s)
  show ?case
  proof (cases "strstr mem line CRLF")
    case None
    then show ?thesis by (subst hdr_lines.simps) simp
  next
    case (Some lineEnd)
    show ?thesis
    proof (cases "lineBuf @ bytes mem line lineEnd = []")
      case True
      with Some show ?thesis
        by (subst hdr_lines.simps) (simp add: headers_done_def)
    next
      case False
      with Some "1.IH"[OF Some False] show ?thesis
        by (subst hdr_lines.simps) (auto simp: redirectCount_process_line)
    qed
  qed
qed

lemma redirectCount_readHeaders_loop:
  assumes "readHeaders_loop B lineBuf s = Some s'"
  shows "redirectCount s' = redirectCount s"
proof (rule readHeaders_loop.raw_induct
         [where P = "\<lambda>B lineBuf s s'. redirectCount s' = redirectCount s", OF _ assms])
  fix loop :: "nat \<Rightarrow> char list \<Rightarrow> HTTPResponse \<Rightarrow> HTTPResponse option"
    and B lineBuf s s'
  assume IH: "\<And>B lineBuf s s'. loop B lineBuf s = Some s' \<Longrightarrow> redirectCount s' = redirectCount s"
    and step: "(case hdr_lines B (buf (snd (readRaw B s))) (fst (readRaw B s)) 0 lineBuf
                       (snd (readRaw B s)) of
                  (complete, lineBuf', s') \<Rightarrow>
                    if complete then Some s' else loop B lineBuf' s') = Some s'"
  obtain c lb t where h:
    "hdr_lines B (buf (snd (readRaw B s))) (fst (readRaw B s)) 0 lineBuf (snd (readRaw B s))
       = (c, lb, t)"
    using prod_cases3 by blast
  have "redirectCount t = redirectCount (snd (readRaw B s))"
    using redirectCount_hdr_lines[of B "buf (snd (readRaw B s))" "fst (readRaw B s)" 0 lineBuf
            "snd (readRaw B s)"] h
    by simp
  also have "\<dots> = redirectCount s"
    by (simp add: readRaw_def Let_def split: prod.splits)
  finally have t: "redirectCount t = redirectCount s" .
  show "redirectCount s' = redirectCount s"
  proof (cases c)
    case True
    with step h t show ?thesis by simp
  next
    case False
    with step h have "loop B lb t = Some s'" by simp
    from IH[OF this] t show ?thesis by simp
  qed
qed

lemma redirectCount_leg:
  "leg net B fresh req u resp = Some (Live r) \<Longrightarrow> redirectCount r = redirectCount resp"
  by (auto simp: leg_def Let_def readHeaders_def split: option.splits if_splits
           dest!: redirectCount_readHeaders_loop)


text \<open>
  C2. Let the leg for \<open>u\<close> end with a response \<open>r1\<close> that is a redirect (a \<open>Location\<close>
  header set \<open>isRedirect\<close>). With \<open>maxRedirects = 0\<close> that response is returned unfollowed.
  With \<open>maxRedirects = 1\<close> (and no redirect followed so far) the result is the result of
  the one leg for \<open>location\<close>: exactly one redirect is followed. With a negative
  \<open>maxRedirects\<close> the redirect is followed whatever the count. Whenever the redirect is
  followed, the next leg starts from the response with \<open>redirectCount\<close> incremented (on
  \<open>size_t\<close>) and its transport closed.
\<close>

theorem redirect_following:
  assumes first: "leg net B fresh req u resp = Some (Live r1)"
    and redir: "isRedirect r1"
  shows "(maxRedirects req = 0 \<longrightarrow> executeImpl net B fresh req u resp = Some (Live r1))
       \<and> (maxRedirects req = 1 \<and> redirectCount resp = 0 \<longrightarrow>
            executeImpl net B fresh req u resp
              = leg net B fresh req (location r1) (close (r1\<lparr>redirectCount := 1\<rparr>)))
       \<and> (maxRedirects req < 0 \<longrightarrow>
            executeImpl net B fresh req u resp
              = executeImpl net B fresh req (location r1)
                  (close (r1\<lparr>redirectCount := size_add (redirectCount r1) 1\<rparr>)))
       \<and> (maxRedirects req < 0 \<or> int (redirectCount r1) < maxRedirects req \<longrightarrow>
            executeImpl net B fresh req u resp
              = executeImpl net B fresh req (location r1)
                  (close (r1\<lparr>redirectCount := size_add (redirectCount r1) 1\<rparr>))
            \<and> \<not> is_open (socket (close (r1\<lparr>redirectCount := size_add (redirectCount r1) 1\<rparr>)))
            \<and> redirectCount (close (r1\<lparr>redirectCount := size_add (redirectCount r1) 1\<rparr>))
                = (redirectCount r1 + 1) mod 2 ^ 32)"
proof -
  have unfollowed: "executeImpl net B fresh req u resp = Some (Live r1)"
    if "\<not> (maxRedirects req < 0 \<or> int (redirectCount r1) < maxRedirects req)"
    using first that by (subst executeImpl.simps) simp
  have followed: "executeImpl net B fresh req u resp
              = executeImpl net B fresh req (location r1)
                  (close (r1\<lparr>redirectCount := size_add (redirectCount r1) 1\<rparr>))"
    if "maxRedirects req < 0 \<or> int (redirectCount r1) < maxRedirects req"
    using first redir that by (subst executeImpl.simps) simp
  have count: "redirectCount r1 = redirectCount resp"
    using first by (rule redirectCount_leg)
  have once: "executeImpl net B fresh req u resp
              = leg net B fresh req (location r1) (close (r1\<lparr>redirectCount := 1\<rparr>))"
    if one: "maxRedirects req = 1" and zero: "redirectCount resp = 0"
  proof -
    let ?next = "close (r1\<lparr>redirectCount := 1\<rparr>)"
    have "executeImpl net B fresh req u resp = executeImpl net B fresh req (location r1) ?next"
      using followed one zero count by (simp add: size_add_def)
    also have "\<dots> = leg net B fresh req (location r1) ?next"
    proof (cases "leg net B fresh req (location r1) ?next")
      case None
      then show ?thesis by (subst executeImpl.simps) simp
    next
      case (Some res)
      show ?thesis
      proof (cases res)
        case (Live r2)
        with Some have "redirectCount r2 = redirectCount ?next"
          by (simp add: redirectCount_leg)
        then have "redirectCount r2 = 1"
          by (simp add: close_def)
        with Some Live one show ?thesis
          by (subst executeImpl.simps) simp
      next
        case (Freed r2)
        with Some show ?thesis by (subst executeImpl.simps) simp
      next
        case BadUrl
        with Some show ?thesis by (subst executeImpl.simps) simp
      qed
    qed
    finally show ?thesis .
  qed
  show ?thesis
    using unfollowed followed once
    by (auto simp: close_def sock_close_def size_add_def)
qed

theorem redirect_following_witness:
  "(\<exists>r1. leg redirect_net 1024 [] (get_request ''http://a/'' 1) ''http://a/'' new_HTTPResponse
            = Some (Live r1)
         \<and> isRedirect r1 \<and> location r1 = ''http://b/x'')
   \<and> (\<exists>r2. executeImpl redirect_net 1024 [] (get_request ''http://a/'' 1) ''http://a/''
              new_HTTPResponse = Some (Live r2)
         \<and> statusCode r2 = 200 \<and> redirectCount r2 = 1 \<and> peer_host (socket r2) = ''b'')"
proof -
  have "\<exists>r1. leg redirect_net 1024 [] (get_request ''http://a/'' 1) ''http://a/'' new_HTTPResponse
            = Some (Live r1)
         \<and> isRedirect r1 \<and> location r1 = ''http://b/x''"
    apply (simp add: leg_def url_split_def c_eval request_text_def get_request_def dec.simps
       sock_open_def sock_write_def redirect_net_def new_HTTPResponse_def readHeaders_def)
    apply (subst readHeaders_loop.simps)
    apply (simp add: hdr_eval c_eval)
    done
  then obtain r1 where
    first: "leg redirect_net 1024 [] (get_request ''http://a/'' 1) ''http://a/'' new_HTTPResponse
              = Some (Live r1)"
    and redir: "isRedirect r1" and loc: "location r1 = ''http://b/x''"
    by blast
  have one: "maxRedirects (get_request ''http://a/'' 1) = 1"
    by (simp add: get_request_def)
  have "\<exists>r2. leg redirect_net 1024 [] (get_request ''http://a/'' 1) ''http://b/x''
                (close (r1\<lparr>redirectCount := 1\<rparr>)) = Some (Live r2)
         \<and> statusCode r2 = 200 \<and> redirectCount r2 = 1 \<and> peer_host (socket r2) = ''b''"
    apply (simp add: leg_def url_split_def c_eval request_text_def get_request_def dec.simps
       sock_open_def sock_write_def redirect_net_def close_def readHeaders_def)
    apply (subst readHeaders_loop.simps)
    apply (simp add: hdr_eval c_eval)
    done
  with redirect_following[OF first redir] one loc first redir show ?thesis
    by (simp add: new_HTTPResponse_def)
qed


section \<open>A chunked body\<close>

lemma first_ten:
  "10 \<le> length xs \<Longrightarrow> \<exists>a0 a1 a2 a3 a4 a5 a6 a7 a8 a9 r. xs = a0 # a1 # a2 # a3 # a4 # a5 # a6 # a7 # a8 # a9 # r"
  by (simp add: numeral_eq_Suc Suc_le_length_iff) blast

lemma wiki_in_four_reads:
  assumes B: "100 \<le> B" and len: "length scratch = B"
  shows "\<exists>s s'. readHeaders B fresh
                 (response_on [chunked_head,
                    ''4'' @ CRLF @ ''Wiki'' @ [CR],
                    [LF],
                    ''5'',
                    CRLF @ ''pedia'' @ CRLF @ ''0'' @ CRLF @ CRLF]) = Some s
        \<and> readToString B scratch s = Some (Returns (s', ''Wiki'')) \<and> \<not> isComplete s'"
proof -
  from B len have "10 \<le> length scratch" by simp
  from first_ten[OF this] obtain a0 a1 a2 a3 a4 a5 a6 a7 a8 a9 r
    where scratch: "scratch = a0 # a1 # a2 # a3 # a4 # a5 # a6 # a7 # a8 # a9 # r"
    by (elim exE)
  from len B have r: "90 \<le> length r" by (simp add: scratch)
  show ?thesis
    using B r
    apply (simp add: readHeaders_def response_on_def new_HTTPResponse_def chunked_head_def)
    apply (subst readHeaders_loop.simps)
    apply (simp add: hdr_eval c_eval)
    apply (simp add: readToString_def)
    apply (subst readToString_loop.simps)
    apply (simp add: read_def)
    apply (subst read_loop.simps)
    apply (simp add: read_eval c_eval scratch)
    apply (subst readToString_loop.simps)
    apply (simp add: read_def)
    apply (subst read_loop.simps)
    apply (simp add: read_eval c_eval)
    apply (simp add: close_def)
    done
qed

text \<open>
  C1. The claim: for a chunked response whose transport delivers the bytes
  \<open>4 CRLF Wiki CRLF 5 CRLF pedia CRLF 0 CRLF CRLF\<close> as the body, \<open>readToString\<close> returns
  \<open>Wikipedia\<close> and the response ends complete. Let the transport deliver these bytes in
  four reads: \<open>4 CRLF Wiki CR\<close>, \<open>LF\<close>, \<open>5\<close> and the rest. After \<open>Wiki\<close> the \<open>skip\<close> of the
  closing \<open>CRLF\<close> finds one byte buffered and, being told not to read, drops the other;
  the first \<open>read\<close> returns 4. The second \<open>read\<close> takes the \<open>LF\<close> as the start of a size line,
  finds no \<open>CR\<close> in that buffer nor in the next one (\<open>5\<close>), gives up and returns 0.
  \<open>readToString\<close> returns \<open>Wiki\<close> and the response is not complete.
\<close>

theorem chunked_body_split_loses_pedia:
  "\<forall>fresh. \<exists>s s'.
      readHeaders 1024 fresh
        (response_on [chunked_head,
           ''4'' @ CRLF @ ''Wiki'' @ [CR],
           [LF],
           ''5'',
           CRLF @ ''pedia'' @ CRLF @ ''0'' @ CRLF @ CRLF]) = Some s
    \<and> concat [''4'' @ CRLF @ ''Wiki'' @ [CR], [LF], ''5'',
               CRLF @ ''pedia'' @ CRLF @ ''0'' @ CRLF @ CRLF] = wikipedia_chunks
    \<and> readToString 1024 (replicate 1024 (CHR ''?'')) s = Some (Returns (s', ''Wiki''))
    \<and> \<not> isComplete s'"
proof
  fix fresh
  have "concat [''4'' @ CRLF @ ''Wiki'' @ [CR], [LF], ''5'',
               CRLF @ ''pedia'' @ CRLF @ ''0'' @ CRLF @ CRLF] = wikipedia_chunks"
    by (simp add: wikipedia_chunks_def)
  with wiki_in_four_reads[of 1024 "replicate 1024 (CHR ''?'')" fresh]
  show "\<exists>s s'.
      readHeaders 1024 fresh
        (response_on [chunked_head,
           ''4'' @ CRLF @ ''Wiki'' @ [CR],
           [LF],
           ''5'',
           CRLF @ ''pedia'' @ CRLF @ ''0'' @ CRLF @ CRLF]) = Some s
    \<and> concat [''4'' @ CRLF @ ''Wiki'' @ [CR], [LF], ''5'',
               CRLF @ ''pedia'' @ CRLF @ ''0'' @ CRLF @ CRLF] = wikipedia_chunks
    \<and> readToString 1024 (replicate 1024 (CHR ''?'')) s = Some (Returns (s', ''Wiki''))
    \<and> \<not> isComplete s'"
    by simp
qed

text \<open>
  Remark. When the body arrives in one read (the one that brought the headers, or a read
  of its own) \<open>readToString\<close> does return \<open>Wikipedia\<close> and leaves the response complete, for
  every buffer capacity of at least 100 bytes.
\<close>

lemma wiki_one_fill:
  assumes B: "100 \<le> B" and len: "length scratch = B"
  shows "\<exists>s s'. readHeaders B fresh (response_on [chunked_head @ wikipedia_chunks]) = Some s
        \<and> readToString B scratch s = Some (Returns (s', ''Wikipedia'')) \<and> isComplete s'"
proof -
  from B len have "10 \<le> length scratch" by simp
  from first_ten[OF this] obtain a0 a1 a2 a3 a4 a5 a6 a7 a8 a9 r
    where scratch: "scratch = a0 # a1 # a2 # a3 # a4 # a5 # a6 # a7 # a8 # a9 # r"
    by (elim exE)
  from len B have r: "90 \<le> length r" by (simp add: scratch)
  show ?thesis
    using B r
    apply (simp add: readHeaders_def response_on_def new_HTTPResponse_def chunked_head_def wikipedia_chunks_def)
    apply (subst readHeaders_loop.simps)
    apply (simp add: hdr_eval c_eval)
    apply (simp add: readToString_def)
    apply (subst readToString_loop.simps)
    apply (simp add: read_def)
    apply (subst read_loop.simps)
    apply (simp add: read_eval c_eval scratch)
    apply (subst read_loop.simps)
    apply (simp add: read_eval c_eval)
    apply (subst read_loop.simps)
    apply (simp add: read_eval c_eval)
    apply (subst readToString_loop.simps)
    apply (simp add: read_def close_def c_eval)
    done
qed

lemma wiki_two_fills:
  assumes B: "100 \<le> B" and len: "length scratch = B"
  shows "\<exists>s s'. readHeaders B fresh (response_on [chunked_head, wikipedia_chunks]) = Some s
        \<and> readToString B scratch s = Some (Returns (s', ''Wikipedia'')) \<and> isComplete s'"
proof -
  from B len have "10 \<le> length scratch" by simp
  from first_ten[OF this] obtain a0 a1 a2 a3 a4 a5 a6 a7 a8 a9 r
    where scratch: "scratch = a0 # a1 # a2 # a3 # a4 # a5 # a6 # a7 # a8 # a9 # r"
    by (elim exE)
  from len B have r: "90 \<le> length r" by (simp add: scratch)
  show ?thesis
    using B r
    apply (simp add: readHeaders_def response_on_def new_HTTPResponse_def chunked_head_def wikipedia_chunks_def)
    apply (subst readHeaders_loop.simps)
    apply (simp add: hdr_eval c_eval)
    apply (simp add: readToString_def)
    apply (subst readToString_loop.simps)
    apply (simp add: read_def)
    apply (subst read_loop.simps)
    apply (simp add: read_eval c_eval scratch)
    apply (subst read_loop.simps)
    apply (simp add: read_eval c_eval)
    apply (subst read_loop.simps)
    apply (simp add: read_eval c_eval)
    apply (subst readToString_loop.simps)
    apply (simp add: read_def close_def c_eval)
    done
qed

lemma chunked_wikipedia:
  assumes "100 \<le> B" and "length scratch = B"
  shows "(\<exists>s s'. readHeaders B fresh (response_on [chunked_head @ wikipedia_chunks]) = Some s
            \<and> readToString B scratch s = Some (Returns (s', ''Wikipedia'')) \<and> isComplete s')
       \<and> (\<exists>s s'. readHeaders B fresh (response_on [chunked_head, wikipedia_chunks]) = Some s
            \<and> readToString B scratch s = Some (Returns (s', ''Wikipedia'')) \<and> isComplete s')"
  using wiki_one_fill[OF assms] wiki_two_fills[OF assms] by blast


text \<open>
  Remark. When the transport splits the body between the \<open>CR\<close> and the \<open>LF\<close> that close
  the chunk \<open>pedia\<close>, \<open>readToString\<close> returns \<open>Wikipedia\<close>, but the \<open>LF\<close> is then read as the
  start of the next size line, the terminal chunk is not recognised, and the loop ends on
  the end of the stream with the response not marked complete.
\<close>

lemma wiki_split_in_last_CRLF:
  assumes B: "100 \<le> B" and len: "length scratch = B"
  shows "\<exists>s s'. readHeaders B fresh
                 (response_on [chunked_head,
                    ''4'' @ CRLF @ ''Wiki'' @ CRLF @ ''5'' @ CRLF @ ''pedia'' @ [CR],
                    [LF] @ ''0'' @ CRLF @ CRLF]) = Some s
        \<and> readToString B scratch s = Some (Returns (s', ''Wikipedia'')) \<and> \<not> isComplete s'"
proof -
  from B len have "10 \<le> length scratch" by simp
  from first_ten[OF this] obtain a0 a1 a2 a3 a4 a5 a6 a7 a8 a9 r
    where scratch: "scratch = a0 # a1 # a2 # a3 # a4 # a5 # a6 # a7 # a8 # a9 # r"
    by (elim exE)
  from len B have r: "90 \<le> length r" by (simp add: scratch)
  show ?thesis
    using B r
    apply (simp add: readHeaders_def response_on_def new_HTTPResponse_def chunked_head_def)
    apply (subst readHeaders_loop.simps)
    apply (simp add: hdr_eval c_eval)
    apply (simp add: readToString_def)
    apply (subst readToString_loop.simps)
    apply (simp add: read_def)
    apply (subst read_loop.simps)
    apply (simp add: read_eval c_eval scratch)
    apply (subst read_loop.simps)
    apply (simp add: read_eval c_eval)
    apply (subst readToString_loop.simps)
    apply (simp add: read_def)
    apply (subst read_loop.simps)
    apply (simp add: read_eval c_eval)
    apply (subst read_loop.simps)
    apply (simp add: read_eval c_eval)
    apply (simp add: close_def)
    done
qed

section \<open>The copy loop and NUL bytes\<close>

text \<open>
  C3. The claim: every iteration of the copy loop copies \<open>min(toRead, bufRemaining,
  chunkRemaining)\<close> bytes of the receive buffer to the destination, whatever the bytes
  are, NUL included. The counters do advance by that amount, but the copy is a
  \<open>strncpy\<close>: for the body \<open>a NUL b\<close> (with \<open>Content-Length: 3\<close>) the destination receives
  \<open>a NUL NUL\<close>, and \<open>read\<close> reports 3 bytes.
\<close>

theorem copy_stops_at_NUL:
  "\<forall>fresh. \<exists>s s'.
      readHeaders 1024 fresh (response_on [nul_body]) = Some s
    \<and> contentLength s = 3 \<and> bufRemaining s = 3
    \<and> bytes (buf s) (bufPtr s) (bufPtr s + 3) = [CHR ''a'', NUL, CHR ''b'']
    \<and> read 1024 s ''xxxx'' 3 = Some (Returns (s', [CHR ''a'', NUL, NUL, NUL], 3))"
  apply (simp add: readHeaders_def response_on_def new_HTTPResponse_def nul_body_def)
  apply (subst readHeaders_loop.simps)
  apply (simp add: hdr_eval c_eval)
  apply (simp add: read_def)
  apply (subst read_loop.simps)
  apply (simp add: read_eval c_eval)
  apply (subst read_loop.simps)
  apply (simp add: read_eval c_eval)
  done

section \<open>Header lines split across reads\<close>

text \<open>
  C4. The claim: a header block parses to the same metadata whether it arrives in one read
  or split in two at any byte, also inside a \<open>CRLF\<close>. When the split falls between the
  \<open>CR\<close> and the \<open>LF\<close> that end \<open>Content-Length: 42\<close>, the line search of the second read
  does not see that line end: the next line, \<open>X-Foo: bar\<close>, is appended to the
  content-length line and never reaches the header map, which the unsplit block fills.
\<close>

theorem split_inside_CRLF_changes_headers:
  "\<forall>fresh. \<exists>s1 s2.
      readHeaders 1024 fresh (response_on [foo_head]) = Some s1
    \<and> readHeaders 1024 fresh (response_on [take 36 foo_head, drop 36 foo_head]) = Some s2
    \<and> take 36 foo_head = ''HTTP/1.1 200 OK'' @ CRLF @ ''Content-Length: 42'' @ [CR]
    \<and> contentLength s1 = 42 \<and> contentLength s2 = 42
    \<and> headers s1 ''x-foo'' = Some ''bar'' \<and> headers s2 ''x-foo'' = None"
  apply (simp add: readHeaders_def response_on_def new_HTTPResponse_def foo_head_def)
  apply (subst readHeaders_loop.simps)
  apply (simp add: hdr_eval c_eval)
  apply (subst readHeaders_loop.simps)
  apply (simp add: hdr_eval c_eval)
  apply (subst readHeaders_loop.simps)
  apply (simp add: hdr_eval c_eval)
  done

section \<open>The buffer cursor\<close>

text \<open>
  C8. The claim: after any sequence of \<open>readHeaders\<close>, \<open>skip\<close> and \<open>read\<close> the cursor offset
  plus the count of buffered bytes is at most \<open>BUF_SIZE\<close>. A chunked body that arrives as
  \<open>CR 5\<close> and then \<open>x\<close>: \<open>strtol\<close> skips the \<open>CR\<close> as white space and ends behind the
  \<open>5\<close>, \<open>skip\<close> is asked for 4 bytes of which the buffer holds 2, the next read delivers 1
  byte, and \<open>bufRemaining -= skip\<close> wraps around. After \<open>read\<close> the count is
  \<open>2^32 - 8\<close> with the cursor at offset 9.
\<close>

theorem cursor_invariant_broken:
  "\<forall>fresh dst0. \<exists>s s' d.
      readHeaders 1024 fresh (response_on [chunked_head, [CR, CHR ''5''], ''x'']) = Some s
    \<and> bufPtr s + bufRemaining s \<le> 1024
    \<and> read 1024 s dst0 5 = Some (Returns (s', d, 5))
    \<and> bufPtr s' = 9 \<and> bufRemaining s' = 4294967288
    \<and> \<not> bufPtr s' + bufRemaining s' \<le> 1024"
  apply (simp add: readHeaders_def response_on_def new_HTTPResponse_def chunked_head_def)
  apply (subst readHeaders_loop.simps)
  apply (simp add: hdr_eval c_eval)
  apply (simp add: read_def)
  apply (subst read_loop.simps)
  apply (simp add: read_eval c_eval)
  apply (subst read_loop.simps)
  apply (simp add: read_eval c_eval)
  done


section \<open>Completion after the headers\<close>

text \<open>A header block that arrives in one read is parsed line by line.\<close>

lemma find_sub_CRLF: "CR \<notin> set l \<Longrightarrow> find_sub CRLF (l @ CR # LF # xs) = Some (length l)"
  by (induction l) auto

lemma cstr_line:
  assumes "NUL \<notin> set l"
  shows "cstr (pre @ l @ CR # LF # xs) (length pre)
           = l @ CR # LF # takeWhile (\<lambda>c. c \<noteq> NUL) xs"
proof -
  have "takeWhile (\<lambda>c. c \<noteq> NUL) (l @ ys) = l @ takeWhile (\<lambda>c. c \<noteq> NUL) ys" for ys
    using assms by (induction l) auto
  then show ?thesis by (simp add: cstr_def)
qed

lemma strstr_line:
  "NUL \<notin> set l \<Longrightarrow> CR \<notin> set l \<Longrightarrow>
   strstr (pre @ l @ CR # LF # xs) (length pre) CRLF = Some (length pre + length l)"
  by (simp add: strstr_def cstr_line find_sub_CRLF)

lemma bytes_line: "bytes (pre @ l @ xs) (length pre) (length pre + length l) = l"
  by (simp add: bytes_def)

lemma hdr_lines_block:
  assumes "\<forall>l \<in> set ls. l \<noteq> [] \<and> CR \<notin> set l \<and> NUL \<notin> set l"
  shows "hdr_lines B (pre @ concat (map (\<lambda>l. l @ CRLF) ls) @ CRLF @ rest) len (length pre) [] s
       = (True, [],
          headers_done B len (length pre + length (concat (map (\<lambda>l. l @ CRLF) ls)))
            (foldl (\<lambda>s l. process_line l s) s ls))"
  using assms
proof (induction ls arbitrary: pre s)
  case Nil
  have "strstr (pre @ [] @ CR # LF # rest) (length pre) CRLF = Some (length pre + length ([]::char list))"
    by (rule strstr_line) simp_all
  then have "strstr (pre @ CR # LF # rest) (length pre) CRLF = Some (length pre)"
    by simp
  then show ?case
    by (subst hdr_lines.simps) (simp add: bytes_def)
next
  case (Cons l ls)
  define tail where "tail = concat (map (\<lambda>l. l @ CRLF) ls) @ CRLF @ rest"
  from Cons.prems have l: "l \<noteq> []" "CR \<notin> set l" "NUL \<notin> set l"
    and ls: "\<forall>l \<in> set ls. l \<noteq> [] \<and> CR \<notin> set l \<and> NUL \<notin> set l"
    by simp_all
  have mem: "pre @ concat (map (\<lambda>l. l @ CRLF) (l # ls)) @ CRLF @ rest = pre @ l @ CR # LF # tail"
    by (simp add: tail_def)
  have mem': "pre @ l @ CR # LF # tail = (pre @ l @ CRLF) @ tail"
    by simp
  have found: "strstr (pre @ l @ CR # LF # tail) (length pre) CRLF = Some (length pre + length l)"
    using l by (simp add: strstr_line)
  have line: "bytes (pre @ l @ CR # LF # tail) (length pre) (length pre + length l) = l"
    by (rule bytes_line)
  have "hdr_lines B (pre @ l @ CR # LF # tail) len (length pre) [] s
        = hdr_lines B (pre @ l @ CR # LF # tail) len (length pre + length l + 2) [] (process_line l s)"
    using l by (subst hdr_lines.simps) (simp add: found line)
  also have "\<dots> = hdr_lines B ((pre @ l @ CRLF) @ tail) len (length (pre @ l @ CRLF)) [] (process_line l s)"
    by (simp only: mem') simp
  also have "\<dots> = (True, [],
          headers_done B len (length (pre @ l @ CRLF) + length (concat (map (\<lambda>l. l @ CRLF) ls)))
            (foldl (\<lambda>s l. process_line l s) (process_line l s) ls))"
    unfolding tail_def by (rule Cons.IH[OF ls])
  finally show ?case
    by (simp only: mem) (simp add: add.assoc)
qed

lemma isComplete_process_line: "isComplete s \<Longrightarrow> isComplete (process_line l s)"
  by (simp add: process_line_def Let_def split: option.splits)

lemma isComplete_foldl:
  "isComplete s \<Longrightarrow> isComplete (foldl (\<lambda>s l. process_line l s) s ls)"
  by (induction ls arbitrary: s) (simp_all add: isComplete_process_line)

lemma content_length_line:
  assumes "readHeader l ''content-length:'' = Some v"
  shows "take 5 l \<noteq> ''HTTP/'' \<and> readHeader l ''content-type:'' = None"
proof -
  have n15: "length ''content-length:'' = 15" and n13: "length ''content-type:'' = 13"
    by simp_all
  have lowname: "map tolower ''content-length:'' = ''content-length:''"
    by (simp add: tolower_def)
  from assms
  have "map tolower (take (length ''content-length:'') l) = map tolower ''content-length:''"
    unfolding readHeader_def by (metis option.distinct(1))
  then have low: "map tolower (take 15 l) = ''content-length:''"
    by (simp only: n15 lowname)
  have "map tolower (take 5 l) = take 5 (map tolower (take 15 l))"
    by (simp add: take_map)
  with low have five: "map tolower (take 5 l) = ''conte''" by simp
  have "map tolower (take 13 l) = take 13 (map tolower (take 15 l))"
    by (simp add: take_map)
  with low have thirteen: "map tolower (take 13 l) = ''content-lengt''" by simp
  from five have "take 5 l \<noteq> ''HTTP/''"
    by (auto simp: tolower_def)
  moreover have "readHeader l ''content-type:'' = None"
    unfolding readHeader_def n13 using thirteen by (simp add: tolower_def)
  ultimately show ?thesis by simp
qed

lemma isComplete_zero_line:
  assumes "NUL \<notin> set l" and "readHeader l ''content-length:'' = Some v"
    and "fst (strtol 10 v) = 0"
  shows "isComplete (process_line l s)"
proof -
  from assms(1) have tw: "takeWhile (\<lambda>c. c \<noteq> NUL) l = l"
    by (auto simp: takeWhile_eq_all_conv)
  show ?thesis
    unfolding process_line_def tw
    using content_length_line[OF assms(2)] assms(2,3)
    by (simp add: Let_def to_size_def)
qed

lemma isComplete_foldl_zero_line:
  assumes "l \<in> set ls" and "\<forall>l \<in> set ls. NUL \<notin> set l"
    and "readHeader l ''content-length:'' = Some v" and "fst (strtol 10 v) = 0"
  shows "isComplete (foldl (\<lambda>s l. process_line l s) s ls)"
  using assms(1,2)
proof (induction ls arbitrary: s)
  case Nil
  then show ?case by simp
next
  case (Cons a ls)
  show ?case
  proof (cases "a = l")
    case True
    with Cons.prems assms(3,4) have "isComplete (process_line a s)"
      by (simp add: isComplete_zero_line)
    then show ?thesis by (simp add: isComplete_foldl)
  next
    case False
    with Cons show ?thesis by simp
  qed
qed

text \<open>
  C5, as amended. A header block of lines without \<open>CR\<close> and \<open>NUL\<close> that arrives in one read
  and contains a \<open>content-length\<close> line (in any letter case) whose value converts to 0:
  \<open>readHeaders\<close> returns with the response marked complete, and every \<open>read\<close> after that
  returns 0 and leaves the response, its transport included, as it is.
\<close>

theorem content_length_zero_completes:
  assumes lines: "\<forall>l \<in> set ls. l \<noteq> [] \<and> CR \<notin> set l \<and> NUL \<notin> set l"
    and fill: "sock_read B (socket s) = (concat (map (\<lambda>l. l @ CRLF) ls) @ CRLF @ rest, t)"
    and zero: "l \<in> set ls" "readHeader l ''content-length:'' = Some v" "fst (strtol 10 v) = 0"
  shows "\<exists>s'. readHeaders B fresh s = Some s' \<and> isComplete s'
           \<and> (\<forall>dst0 n. read B s' dst0 n = Some (Returns (s', dst0[0 := NUL], 0)))"
proof -
  let ?wire = "concat (map (\<lambda>l. l @ CRLF) ls) @ CRLF @ rest"
  define s0 where "s0 = (if buf s = [] then s\<lparr>buf := fresh, bufPtr := 0\<rparr> else s)
          \<lparr>statusCode := 0, contentLength := 0, isChunked := False, isGzip := False,
           isComplete := False, isRedirect := False, isStreaming := False\<rparr>"
  have sock: "socket s0 = socket s" by (simp add: s0_def)
  define s1 where "s1 = snd (readRaw B s0)"
  have len: "fst (readRaw B s0) = length ?wire"
    by (simp add: readRaw_def sock fill)
  have mem: "buf s1 = [] @ concat (map (\<lambda>l. l @ CRLF) ls) @ CRLF @ (rest @ NUL # drop (length ?wire + 1) (buf s0))"
    by (simp add: s1_def readRaw_def sock fill)
  define s2 where "s2 = headers_done B (length ?wire) (length ([]::char list) + length (concat (map (\<lambda>l. l @ CRLF) ls)))
            (foldl (\<lambda>s l. process_line l s) s1 ls)"
  have "hdr_lines B (buf s1) (length ?wire) (length ([]::char list)) [] s1 = (True, [], s2)"
    unfolding mem s2_def by (rule hdr_lines_block[OF lines])
  then have "readHeaders_loop B [] s0 = Some s2"
    by (subst readHeaders_loop.simps) (simp add: len flip: s1_def)
  then have run: "readHeaders B fresh s = Some s2"
    by (simp add: readHeaders_def s0_def)
  from lines have "\<forall>l \<in> set ls. NUL \<notin> set l" by simp
  from isComplete_foldl_zero_line[OF zero(1) this zero(2,3)]
  have "isComplete (foldl (\<lambda>s l. process_line l s) s1 ls)" .
  then have complete: "isComplete s2"
    by (simp add: s2_def headers_done_def)
  then have "\<forall>dst0 n. read B s2 dst0 n = Some (Returns (s2, dst0[0 := NUL], 0))"
    by (simp add: read_def)
  with run complete show ?thesis by blast
qed


theorem content_length_zero_completes_witness:
  "\<forall>fresh. \<exists>s'.
     readHeaders 1024 fresh
       (response_on [''HTTP/1.1 200 OK'' @ CRLF @ ''Content-Length: 0'' @ CRLF @ CRLF]) = Some s'
     \<and> isComplete s'
     \<and> read 1024 s' ''xxxx'' 3 = Some (Returns (s', NUL # ''xxx'', 0))"
proof
  fix fresh
  let ?ls = "[''HTTP/1.1 200 OK'', ''Content-Length: 0'']"
  let ?s = "response_on [''HTTP/1.1 200 OK'' @ CRLF @ ''Content-Length: 0'' @ CRLF @ CRLF]"
  have lines: "\<forall>l \<in> set ?ls. l \<noteq> [] \<and> CR \<notin> set l \<and> NUL \<notin> set l"
    by simp
  have "fst (sock_read 1024 (socket ?s)) = concat (map (\<lambda>l. l @ CRLF) ?ls) @ CRLF @ []"
    by (simp add: sock_read_def response_on_def new_HTTPResponse_def)
  then have fill: "sock_read 1024 (socket ?s)
                     = (concat (map (\<lambda>l. l @ CRLF) ?ls) @ CRLF @ [], snd (sock_read 1024 (socket ?s)))"
    by (metis prod.collapse)
  have zero: "''Content-Length: 0'' \<in> set ?ls"
    "readHeader ''Content-Length: 0'' ''content-length:'' = Some ''0''"
    "fst (strtol 10 ''0'') = 0"
    by (simp_all add: readHeader_def c_eval)
  from content_length_zero_completes[OF lines fill zero, of fresh]
  show "\<exists>s'. readHeaders 1024 fresh ?s = Some s' \<and> isComplete s'
          \<and> read 1024 s' ''xxxx'' 3 = Some (Returns (s', NUL # ''xxx'', 0))"
    by auto
qed

text \<open>
  C5, the other half of the claim as stated: without a \<open>content-length\<close> header and without
  chunked transfer encoding the response is not marked complete after the headers.
\<close>

theorem no_length_not_complete:
  "map_option (\<lambda>s. (contentLength s, isChunked s, isComplete s))
     (readHeaders 1024 (replicate 1025 NUL) (response_on [''HTTP/1.1 200 OK'' @ CRLF @ CRLF]))
   = Some (0, False, False)"
  apply (simp add: readHeaders_def response_on_def new_HTTPResponse_def)
  apply (subst readHeaders_loop.simps)
  apply (simp add: hdr_eval c_eval)
  done

section \<open>Streaming mode\<close>

text \<open>An iteration of the main loop of \<open>read\<close> that changes nothing and does not break
  is repeated for ever.\<close>

lemma read_loop_stuck:
  assumes todo: "toRead d \<noteq> 0" and same: "read_iter B s d = (Next, s, d)"
  shows "read_loop B s d = None"
proof (rule ccontr)
  assume "read_loop B s d \<noteq> None"
  then obtain y where y: "read_loop B s d = Some y" by auto
  have "\<not> (B = B \<and> s = s \<and> d = d)"
  proof (rule read_loop.raw_induct
           [where P = "\<lambda>B' s' d' y. \<not> (B' = B \<and> s' = s \<and> d' = d)", OF _ y])
    fix loop :: "nat \<Rightarrow> HTTPResponse \<Rightarrow> locals \<Rightarrow> (HTTPResponse \<times> locals) outcome option"
      and B' s' d' y'
    assume IH: "\<And>B1 s1 d1 y1. loop B1 s1 d1 = Some y1 \<Longrightarrow> \<not> (B1 = B \<and> s1 = s \<and> d1 = d)"
      and step: "(if toRead d' = 0 then Some (Returns (s', d'))
                  else case read_iter B' s' d' of
                    (Next, s'', d'') \<Rightarrow> loop B' s'' d''
                  | (Break, s'', d'') \<Rightarrow> Some (Returns (s'', d''))
                  | (Throw, s'', d'') \<Rightarrow> Some Throws) = Some y'"
    show "\<not> (B' = B \<and> s' = s \<and> d' = d)"
    proof
      assume "B' = B \<and> s' = s \<and> d' = d"
      with step todo same have "loop B s d = Some y'" by simp
      from IH[OF this] show False by simp
    qed
  qed
  then show False by simp
qed

lemma read_without_framing_hangs:
  assumes "\<not> isComplete s" and "\<not> isChunked s" and "contentLength s = 0"
    and "chunkRemaining s = 0" and "bufRemaining s \<noteq> 0" and "n \<noteq> 0"
  shows "read B s dst0 n = None"
proof -
  let ?d = "\<lparr>dst = dst0, dstp = 0, nread = 0, toRead = n\<rparr>"
  have sk: "skip B 0 False s = (True, s)"
    using assms by (simp add: skip_def)
  have cl: "copy_loop B s ?d = (s, ?d)"
    using assms by (subst copy_loop.simps) simp
  have "read_iter B s ?d = (Next, s, ?d)"
    using assms by (simp add: read_iter_def sk cl)
  moreover have "toRead ?d \<noteq> 0" using assms by simp
  ultimately have "read_loop B s ?d = None" by (rule read_loop_stuck[rotated])
  with assms show ?thesis by (simp add: read_def)
qed

text \<open>
  C7. The claim: in streaming mode, when the buffer empties before the requested count
  or the end of the current unit is reached, \<open>read\<close> returns what it has gathered and does
  not block on the transport: a short read is normal there. Take the response the claim
  is about, with neither \<open>Content-Length\<close> nor chunked encoding, whose first bytes
  \<open>hello\<close> arrive with the headers and whose next bytes arrive later. \<open>readHeaders\<close> marks it
  streaming with 5 bytes buffered. In \<open>read\<close> nothing sets \<open>chunkRemaining\<close>, so the copy loop
  is never entered, no byte is consumed, and the test for an empty buffer that would
  leave the main loop never holds: \<open>read\<close> does not return at all.
\<close>

theorem streaming_read_never_returns:
  "\<forall>fresh dst0. \<exists>s.
      readHeaders 1024 fresh
        (response_on [''HTTP/1.1 200 OK'' @ CRLF @ CRLF @ ''hello'', ''world'']) = Some s
    \<and> isStreaming s \<and> \<not> isChunked s \<and> contentLength s = 0 \<and> \<not> isComplete s
    \<and> bufRemaining s = 5 \<and> bytes (buf s) (bufPtr s) (bufPtr s + 5) = ''hello''
    \<and> read 1024 s dst0 100 = None"
proof (intro allI)
  fix fresh dst0
  have "\<exists>s. readHeaders 1024 fresh
        (response_on [''HTTP/1.1 200 OK'' @ CRLF @ CRLF @ ''hello'', ''world'']) = Some s
    \<and> isStreaming s \<and> \<not> isChunked s \<and> contentLength s = 0 \<and> \<not> isComplete s
    \<and> bufRemaining s = 5 \<and> bytes (buf s) (bufPtr s) (bufPtr s + 5) = ''hello''
    \<and> chunkRemaining s = 0"
    apply (simp add: readHeaders_def response_on_def new_HTTPResponse_def)
    apply (subst readHeaders_loop.simps)
    apply (simp add: hdr_eval c_eval)
    done
  then obtain s where s:
    "readHeaders 1024 fresh
        (response_on [''HTTP/1.1 200 OK'' @ CRLF @ CRLF @ ''hello'', ''world'']) = Some s"
    "isStreaming s" "\<not> isChunked s" "contentLength s = 0" "\<not> isComplete s"
    "bufRemaining s = 5" "bytes (buf s) (bufPtr s) (bufPtr s + 5) = ''hello''"
    "chunkRemaining s = 0"
    by blast
  have "read 1024 s dst0 100 = None"
    by (rule read_without_framing_hangs) (use s in simp_all)
  with s show "\<exists>s.
      readHeaders 1024 fresh
        (response_on [''HTTP/1.1 200 OK'' @ CRLF @ CRLF @ ''hello'', ''world'']) = Some s
    \<and> isStreaming s \<and> \<not> isChunked s \<and> contentLength s = 0 \<and> \<not> isComplete s
    \<and> bufRemaining s = 5 \<and> bytes (buf s) (bufPtr s) (bufPtr s + 5) = ''hello''
    \<and> read 1024 s dst0 100 = None"
    by blast
qed

text \<open>
  Remark. With chunked encoding the streaming flag does shorten a read, at the end of a
  chunk: let the buffer hold the rest of the current chunk (\<open>v\<close> bytes, after its size line
  when that is still to be parsed), at least the first byte of the \<open>CRLF\<close> that closes the
  chunk, and nothing behind that \<open>CRLF\<close>. A \<open>read\<close> that asks for at least \<open>v\<close> bytes returns
  \<open>v\<close>, the length of that rest, with the buffer empty, and issues no transport read.
\<close>

lemma skip_within:
  "len < bufRemaining s \<Longrightarrow>
   skip B len f s = (True, s\<lparr>bufRemaining := bufRemaining s - len, bufPtr := bufPtr s + len\<rparr>)"
  by (simp add: skip_def Let_def)

lemma skip_dontRead:
  "skip B len True s =
     (True, s\<lparr>bufRemaining := bufRemaining s - min len (bufRemaining s),
              bufPtr := bufPtr s + min len (bufRemaining s)\<rparr>)"
  by (simp add: skip_def Let_def min_def)

lemma to_size_nat: "v < 2 ^ 32 \<Longrightarrow> to_size (int v) = v"
proof -
  assume "v < 2 ^ 32"
  then have "int v < 2 ^ 32" by (metis of_nat_less_iff of_nat_numeral of_nat_power)
  then have "int v mod 2 ^ 32 = int v" by simp
  then show ?thesis by (simp add: to_size_def)
qed

lemma streaming_read_yields_at_chunk_end:
  assumes mode: "isStreaming s" "isChunked s" "\<not> isComplete s"
    and chunk: "(chunkRemaining s = v \<and> k = 0)
              \<or> (chunkRemaining s = 0 \<and> peek (buf s) (bufPtr s) \<noteq> CHR ''0''
                 \<and> strchr (buf s) (bufPtr s) CR \<noteq> None
                 \<and> strtol 16 (cstr (buf s) (bufPtr s)) = (int v, e) \<and> v < 2 ^ 32 \<and> k = e + 2)"
    and size: "0 < v" "v \<le> n" "k + v < bufRemaining s" "bufRemaining s \<le> k + v + 2"
  shows "\<exists>s' d. read B s dst0 n = Some (Returns (s', d, v))
           \<and> socket s' = socket s \<and> bufRemaining s' = 0 \<and> chunkRemaining s' = 0"
proof -
  let ?d0 = "\<lparr>dst = dst0, dstp = 0, nread = 0, toRead = n\<rparr>"
  define s1 where "s1 = s\<lparr>bufRemaining := bufRemaining s - k, bufPtr := bufPtr s + k, chunkRemaining := v\<rparr>"
  have s0: "snd (skip B 0 False s) = s"
    using size by (simp add: skip_within)
  have head: "(if isChunked s \<and> chunkRemaining s = 0 then chunk_header B s
               else if contentLength s \<noteq> 0 \<and> chunkRemaining s = 0
                 then (Next, s\<lparr>chunkRemaining := contentLength s\<rparr>)
               else (Next, s)) = (Next, s1)"
  proof -
    from chunk show ?thesis
    proof
      assume "chunkRemaining s = v \<and> k = 0"
      with size show ?thesis by (simp add: s1_def)
    next
      assume c: "chunkRemaining s = 0 \<and> peek (buf s) (bufPtr s) \<noteq> CHR ''0''
                 \<and> strchr (buf s) (bufPtr s) CR \<noteq> None
                 \<and> strtol 16 (cstr (buf s) (bufPtr s)) = (int v, e) \<and> v < 2 ^ 32 \<and> k = e + 2"
      then obtain p where p: "strchr (buf s) (bufPtr s) CR = Some p" by auto
      from c have tv: "to_size (int v) = v"
        by (simp add: to_size_nat)
      from c size have "e + 2 < bufRemaining (s\<lparr>chunkRemaining := v\<rparr>)"
        by simp
      from skip_within[OF this, of B False] c p mode tv show ?thesis
        by (simp add: chunk_header_def Let_def s1_def)
    qed
  qed
  have s1: "isStreaming s1" "isChunked s1" "chunkRemaining s1 = v" "socket s1 = socket s"
    "v < bufRemaining s1" "bufRemaining s1 \<le> v + 2"
    using mode size by (auto simp: s1_def)
  define d1 where "d1 = \<lparr>dst = strncpy dst0 0 (buf s1) (bufPtr s1) v, dstp = v, nread = v, toRead = n - v\<rparr>"
  define s2 where "s2 = s1\<lparr>chunkRemaining := 0, bufRemaining := 0, bufPtr := bufPtr s1 + bufRemaining s1\<rparr>"
  have count: "min (toRead ?d0) (min (bufRemaining s1) (chunkRemaining s1)) = v"
    using s1 size by simp
  have "v < bufRemaining (s1\<lparr>chunkRemaining := chunkRemaining s1 - v\<rparr>)"
    using s1 by simp
  note sk = skip_within[OF this, of B False]
  have step: "copy_step B s1 ?d0 = (s2, d1)"
    apply (simp only: copy_step_def Let_def count sk)
    using s1 apply (simp add: skip_dontRead min_def d1_def s2_def)
    done
  have loop: "copy_loop B s1 ?d0 = (s2, d1)"
    using s1 size step
    by (subst copy_loop.simps, simp, subst copy_loop.simps) (simp add: s2_def)
  have iter: "read_iter B s ?d0 = (Break, s2, d1)"
    using s1 by (simp add: read_iter_def s0 head loop Let_def s2_def)
  have "read_loop B s ?d0 = Some (Returns (s2, d1))"
    using size by (subst read_loop.simps) (simp add: iter)
  then show ?thesis
    using mode s1 by (simp add: read_def s2_def d1_def)
qed



text \<open>
  Remark. Inside a chunk the streaming flag changes nothing: when the buffer empties after
  \<open>abcd\<close>, the first half of a chunk of 8 bytes, \<open>read\<close> issues a transport read that blocks
  until the second burst arrives, and returns all 8 bytes.
\<close>

lemma streaming_read_blocks_mid_chunk:
  "(case readHeaders 1024 (replicate 1025 NUL)
           (response_on [chunked_head @ ''8'' @ CRLF @ ''abcd'',
                         ''efgh'' @ CRLF @ ''0'' @ CRLF @ CRLF]) of
      None \<Rightarrow> False
    | Some s \<Rightarrow>
        isStreaming s \<and> isChunked s \<and> bufRemaining s = 7
        \<and> nreads (socket s) = 1 \<and> nblocked (socket s) = 1
        \<and> (case read 1024 s (replicate 101 (CHR ''.'')) 100 of
             Some (Returns (s', d, k)) \<Rightarrow>
               k = 8 \<and> take 8 d = ''abcdefgh''
               \<and> nreads (socket s') = 2 \<and> nblocked (socket s') = 2
           | _ \<Rightarrow> False))"
  apply (simp add: readHeaders_def response_on_def new_HTTPResponse_def chunked_head_def)
  apply (subst readHeaders_loop.simps)
  apply (simp add: hdr_eval c_eval)
  apply (simp add: read_def)
  apply (subst read_loop.simps)
  apply (simp add: read_eval c_eval)
  apply (subst read_loop.simps)
  apply (simp add: read_eval c_eval)
  done

section \<open>The terminator that read writes\<close>

lemma length_write_bytes: "length (write_bytes d p bs) = length d"
  by (simp add: write_bytes_def min_def)

lemma nth_write_bytes_above:
  assumes "p + length bs \<le> i" and "i < length d"
  shows "write_bytes d p bs ! i = d ! i"
  using assms by (auto simp: write_bytes_def nth_append)

lemma length_strncpy: "length (strncpy d dp m sp n) = length d"
  by (simp add: strncpy_def Let_def length_write_bytes)

lemma nth_strncpy_above:
  assumes "dp + n \<le> i" and "i < length d"
  shows "strncpy d dp m sp n ! i = d ! i"
proof -
  let ?src = "takeWhile (\<lambda>c. c \<noteq> NUL) (take n (drop sp m))"
  have "length ?src \<le> length (take n (drop sp m))"
    by (rule length_takeWhile_le)
  then have "length ?src \<le> n" by simp
  then have "length (?src @ replicate (n - length ?src) NUL) = n" by simp
  with assms show ?thesis
    unfolding strncpy_def Let_def by (intro nth_write_bytes_above) simp_all
qed

lemma dst_inv_copy_step:
  assumes "dst_inv dst0 n d"
  shows "dst_inv dst0 n (snd (copy_step B s d))"
proof -
  define count where "count = min (toRead d) (min (bufRemaining s) (chunkRemaining s))"
  define d1 where "d1 = d\<lparr>dst := strncpy (dst d) (dstp d) (buf s) (bufPtr s) count,
                 dstp := dstp d + count,
                 nread := nread d + count,
                 toRead := toRead d - count\<rparr>"
  have le: "count \<le> toRead d" by (simp add: count_def)
  have inv1: "dst_inv dst0 n d1"
    using assms le
    by (auto simp: dst_inv_def d1_def length_strncpy nth_strncpy_above)
  then have inv0: "dst_inv dst0 n (d1\<lparr>toRead := 0\<rparr>)"
    by (simp add: dst_inv_def)
  have "snd (copy_step B s d) = d1 \<or> snd (copy_step B s d) = d1\<lparr>toRead := 0\<rparr>"
    by (simp add: copy_step_def Let_def count_def d1_def)
  with inv1 inv0 show ?thesis by auto
qed

lemma dst_inv_copy_loop:
  "dst_inv dst0 n d \<Longrightarrow> dst_inv dst0 n (snd (copy_loop B s d))"
proof (induction B s d rule: copy_loop.induct)
  case (1 B s d)
  show ?case
  proof (cases "chunkRemaining s = 0 \<or> toRead d = 0")
    case True
    with "1.prems" show ?thesis by (subst copy_loop.simps) simp
  next
    case False
    from "1.IH"[OF False dst_inv_copy_step[OF "1.prems"]] False show ?thesis
      by (subst copy_loop.simps) simp
  qed
qed

lemma dst_inv_read_iter:
  "dst_inv dst0 n d \<Longrightarrow> dst_inv dst0 n (snd (snd (read_iter B s d)))"
  by (simp add: read_iter_def Let_def dst_inv_copy_loop split: ctl.splits)

lemma dst_inv_read_loop:
  assumes run: "read_loop B s d = Some (Returns (s', d'))" and inv: "dst_inv dst0 n d"
  shows "dst_inv dst0 n d'"
proof -
  have "\<forall>s'' d''. Returns (s', d') = Returns (s'', d'') \<longrightarrow> dst_inv dst0 n d
          \<longrightarrow> dst_inv dst0 n d''"
  proof (rule read_loop.raw_induct
           [where P = "\<lambda>B s d res. \<forall>s' d'. res = Returns (s', d') \<longrightarrow> dst_inv dst0 n d
                         \<longrightarrow> dst_inv dst0 n d'", OF _ run])
    fix loop :: "nat \<Rightarrow> HTTPResponse \<Rightarrow> locals \<Rightarrow> (HTTPResponse \<times> locals) outcome option"
      and B s d res
    assume IH: "\<And>B s d res. loop B s d = Some res \<Longrightarrow>
                  \<forall>s' d'. res = Returns (s', d') \<longrightarrow> dst_inv dst0 n d \<longrightarrow> dst_inv dst0 n d'"
      and step: "(if toRead d = 0 then Some (Returns (s, d))
                  else case read_iter B s d of
                    (Next, s', d') \<Rightarrow> loop B s' d'
                  | (Break, s', d') \<Rightarrow> Some (Returns (s', d'))
                  | (Throw, s', d') \<Rightarrow> Some Throws) = Some res"
    show "\<forall>s' d'. res = Returns (s', d') \<longrightarrow> dst_inv dst0 n d \<longrightarrow> dst_inv dst0 n d'"
    proof (intro allI impI)
      fix s' d'
      assume res: "res = Returns (s', d')" and inv: "dst_inv dst0 n d"
      show "dst_inv dst0 n d'"
      proof (cases "toRead d = 0")
        case True
        with step res inv show ?thesis by simp
      next
        case False
        obtain c s1 d1 where it: "read_iter B s d = (c, s1, d1)"
          using prod_cases3 by blast
        from dst_inv_read_iter[OF inv, of B s] it have inv1: "dst_inv dst0 n d1" by simp
        show ?thesis
        proof (cases c)
          case Next
          with step False it have "loop B s1 d1 = Some res" by simp
          from IH[OF this] res inv1 show ?thesis by simp
        next
          case Break
          with step False it res inv1 show ?thesis by simp
        next
          case Throw
          with step False it res show ?thesis by simp
        qed
      qed
    qed
  qed
  with inv show ?thesis by simp
qed

text \<open>
  C10. Let the destination have room for \<open>n + 1\<close> bytes. When the response is already
  complete, \<open>read\<close> returns 0 and writes only \<open>dst[0] = NUL\<close>. Whenever \<open>read\<close> returns \<open>k\<close>, then
  \<open>k \<le> n\<close>, \<open>dst[k]\<close> is NUL and no byte of the destination behind index \<open>k\<close> has changed;
  \<open>k = n\<close> does occur, so the terminator needs the byte at index \<open>n\<close>.
\<close>

theorem read_terminator_and_frame:
  assumes cap: "n < length dst0"
  shows "(isComplete s \<longrightarrow> read B s dst0 n = Some (Returns (s, dst0[0 := NUL], 0)))
       \<and> (read B s dst0 n = Some (Returns (s', d, k)) \<longrightarrow>
            k \<le> n \<and> length d = length dst0 \<and> d ! k = NUL
            \<and> (\<forall>i. k < i \<and> i < length dst0 \<longrightarrow> d ! i = dst0 ! i))"
proof (intro conjI impI)
  assume "isComplete s"
  then show "read B s dst0 n = Some (Returns (s, dst0[0 := NUL], 0))"
    by (simp add: read_def)
next
  assume r: "read B s dst0 n = Some (Returns (s', d, k))"
  let ?d0 = "\<lparr>dst = dst0, dstp = 0, nread = 0, toRead = n\<rparr>"
  have inv0: "dst_inv dst0 n ?d0" by (simp add: dst_inv_def)
  have "k \<le> n \<and> length d = length dst0 \<and> d ! k = NUL
          \<and> (\<forall>i. k < i \<and> i < length dst0 \<longrightarrow> d ! i = dst0 ! i)"
  proof (cases "isComplete s")
    case True
    from cap have "dst0 \<noteq> []" by auto
    with True r show ?thesis by (auto simp: read_def)
  next
    case False
    with r obtain s1 d1 where
      l: "read_loop B s ?d0 = Some (Returns (s1, d1))"
      and d: "d = (dst d1)[nread d1 := NUL]" and k: "k = nread d1"
      by (auto simp: read_def split: option.splits outcome.splits)
    from dst_inv_read_loop[OF l inv0] have "dst_inv dst0 n d1" .
    with d k cap show ?thesis by (auto simp: dst_inv_def)
  qed
  then show "k \<le> n" "length d = length dst0" "d ! k = NUL"
    "\<forall>i. k < i \<and> i < length dst0 \<longrightarrow> d ! i = dst0 ! i"
    by simp_all
qed


theorem read_terminator_and_frame_witness:
  "\<forall>fresh. \<exists>s s' d.
     readHeaders 1024 fresh (response_on [nul_body]) = Some s
     \<and> read 1024 s ''xxxxx'' 3 = Some (Returns (s', d, 3))
     \<and> length d = 5 \<and> d ! 3 = NUL \<and> d ! 4 = CHR ''x''"
proof
  fix fresh
  have "\<exists>s s' d. readHeaders 1024 fresh (response_on [nul_body]) = Some s
     \<and> read 1024 s ''xxxxx'' 3 = Some (Returns (s', d, 3))"
    apply (simp add: readHeaders_def response_on_def new_HTTPResponse_def nul_body_def)
    apply (subst readHeaders_loop.simps)
    apply (simp add: hdr_eval c_eval)
    apply (simp add: read_def)
    apply (subst read_loop.simps)
    apply (simp add: read_eval c_eval)
    apply (subst read_loop.simps)
    apply (simp add: read_eval c_eval)
    done
  then obtain s s' d where
    hd: "readHeaders 1024 fresh (response_on [nul_body]) = Some s"
    and rd: "read 1024 s ''xxxxx'' 3 = Some (Returns (s', d, 3))"
    by blast
  have cap: "3 < length ''xxxxx''" by simp
  from read_terminator_and_frame[OF cap, of s 1024 s' d 3] rd
  have "length d = 5 \<and> d ! 3 = NUL \<and> d ! 4 = CHR ''x''"
    by simp
  with hd rd show "\<exists>s s' d.
     readHeaders 1024 fresh (response_on [nul_body]) = Some s
     \<and> read 1024 s ''xxxxx'' 3 = Some (Returns (s', d, 3))
     \<and> length d = 5 \<and> d ! 3 = NUL \<and> d ! 4 = CHR ''x''"
    by blast
qed


end
